theory Spec2Isabelle
  imports Main
begin

section \<open>Python values and errors\<close>

text \<open>
  The numbers that flow through \<^verbatim>\<open>game_addition_demo.py\<close> are Python integers and the
  two floating point infinities \<^verbatim>\<open>-math.inf\<close> and \<^verbatim>\<open>math.inf\<close>, which the loops use as
  the initial value of a running maximum or minimum. They are compared with each other
  (\<^verbatim>\<open>val > best_val\<close>, \<^verbatim>\<open>max\<close>, \<^verbatim>\<open>min\<close>, \<^verbatim>\<open>alpha >= beta\<close>) and negated.
\<close>

datatype pynum = NegInf | Fin int | PosInf

instantiation pynum :: linorder
begin

fun less_eq_pynum :: "pynum \<Rightarrow> pynum \<Rightarrow> bool" where
  "less_eq_pynum NegInf y = True"
| "less_eq_pynum (Fin a) NegInf = False"
| "less_eq_pynum (Fin a) (Fin b) = (a \<le> b)"
| "less_eq_pynum (Fin a) PosInf = True"
| "less_eq_pynum PosInf NegInf = False"
| "less_eq_pynum PosInf (Fin b) = False"
| "less_eq_pynum PosInf PosInf = True"

definition less_pynum :: "pynum \<Rightarrow> pynum \<Rightarrow> bool" where
  "less_pynum x y = (x \<le> y \<and> \<not> y \<le> (x::pynum))"

instance
proof
  fix x y z :: pynum
  show "(x < y) = (x \<le> y \<and> \<not> y \<le> x)" by (simp add: less_pynum_def)
  show "x \<le> x" by (cases x) simp_all
  show "x \<le> y \<Longrightarrow> y \<le> z \<Longrightarrow> x \<le> z"
    by (cases x; cases y; cases z) simp_all
  show "x \<le> y \<Longrightarrow> y \<le> x \<Longrightarrow> x = y"
    by (cases x; cases y) simp_all
  show "x \<le> y \<or> y \<le> x"
    by (cases x; cases y) auto
qed

end

instantiation pynum :: uminus
begin

fun uminus_pynum :: "pynum \<Rightarrow> pynum" where
  "uminus_pynum NegInf = PosInf"
| "uminus_pynum (Fin a) = Fin (- a)"
| "uminus_pynum PosInf = NegInf"

instance ..

end

text \<open>The exceptions the modelled code can raise.\<close>

datatype error = IndexError | TypeError | ValueError | ZeroDivisionError

definition bindE :: "error + 'a \<Rightarrow> ('a \<Rightarrow> error + 'b) \<Rightarrow> error + 'b" where
  "bindE m f = (case m of Inl e \<Rightarrow> Inl e | Inr x \<Rightarrow> f x)"

text \<open>
  Reading \<^verbatim>\<open>xs[i]\<close> and writing \<^verbatim>\<open>xs[i] = v\<close> on a Python list: a negative index counts
  from the end, and an index outside \<^verbatim>\<open>-len(xs) .. len(xs) - 1\<close> raises \<^verbatim>\<open>IndexError\<close>.
\<close>

definition py_index :: "'a list \<Rightarrow> int \<Rightarrow> error + nat" where
  "py_index xs i =
     (if 0 \<le> i \<and> i < int (length xs) then Inr (nat i)
      else if i < 0 \<and> - int (length xs) \<le> i then Inr (nat (int (length xs) + i))
      else Inl IndexError)"

definition py_get :: "'a list \<Rightarrow> int \<Rightarrow> error + 'a" where
  "py_get xs i = bindE (py_index xs i) (\<lambda>j. Inr (xs ! j))"

definition py_set :: "'a list \<Rightarrow> int \<Rightarrow> 'a \<Rightarrow> error + 'a list" where
  "py_set xs i v = bindE (py_index xs i) (\<lambda>j. Inr (xs[j := v]))"

text \<open>\<^verbatim>\<open>a % b\<close> on integers: the floor remainder, and an exception for \<^verbatim>\<open>b = 0\<close>.\<close>

definition py_mod :: "int \<Rightarrow> int \<Rightarrow> error + int" where
  "py_mod a b = (if b = 0 then Inl ZeroDivisionError else Inr (a mod b))"

text \<open>\<^verbatim>\<open>[x] * n\<close>: a list of \<^verbatim>\<open>n\<close> copies, empty when \<^verbatim>\<open>n\<close> is not positive.\<close>

definition py_repeat :: "'a \<Rightarrow> int \<Rightarrow> 'a list" where
  "py_repeat x n = replicate (nat n) x"

section \<open>Backward induction: \<^verbatim>\<open>solve_addition_game\<close>\<close>

text \<open>
  The returned dictionary \<^verbatim>\<open>{'V': V, 'policy': policy, 'k': k, 'N': N}\<close>. An entry of
  \<^verbatim>\<open>policy\<close> is an integer or \<^verbatim>\<open>None\<close>.
\<close>

record solution =
  V :: "pynum list"
  policy :: "int option list"
  sol_k :: int
  sol_N :: int

text \<open>
  The inner loop \<^verbatim>\<open>for i in range(1, k + 1)\<close> of the solver, over the moves still to be
  scanned, with the running \<^verbatim>\<open>best_val\<close> and \<^verbatim>\<open>best_move\<close>.
\<close>

fun solve_moves :: "pynum list \<Rightarrow> int \<Rightarrow> int \<Rightarrow> int list \<Rightarrow> pynum \<Rightarrow> int option
    \<Rightarrow> error + (pynum \<times> int option)" where
  "solve_moves Vt N s [] best_val best_move = Inr (best_val, best_move)"
| "solve_moves Vt N s (i # is) best_val best_move =
     (let s_next = s + i in
      bindE (if s_next > N then Inr (Fin (- 1))
             else bindE (py_get Vt s_next) (\<lambda>v. Inr (- v)))
        (\<lambda>val. if val > best_val then solve_moves Vt N s is val (Some i)
                else solve_moves Vt N s is best_val best_move))"

text \<open>
  The outer loop \<^verbatim>\<open>for s in range(N - 1, -1, -1)\<close>, over the states still to be filled,
  with the tables as they stand.
\<close>

fun solve_states :: "int \<Rightarrow> int \<Rightarrow> int list \<Rightarrow> pynum list \<Rightarrow> int option list
    \<Rightarrow> error + (pynum list \<times> int option list)" where
  "solve_states k N [] Vt pol = Inr (Vt, pol)"
| "solve_states k N (s # ss) Vt pol =
     bindE (solve_moves Vt N s [1..k] NegInf None)
       (\<lambda>(best_val, best_move).
          bindE (py_set Vt s best_val)
            (\<lambda>Vt'. bindE (py_set pol s best_move)
               (\<lambda>pol'. solve_states k N ss Vt' pol')))"

definition solve_addition_game :: "int \<Rightarrow> int \<Rightarrow> error + solution" where
  "solve_addition_game k N =
     (let Vt = py_repeat (Fin 0) (N + 1);
          pol = py_repeat (Some 0) (N + 1)
      in bindE (py_set Vt N (Fin (- 1)))
           (\<lambda>Vt. bindE (py_set pol N None)
              (\<lambda>pol. bindE (solve_states k N (rev [0..N - 1]) Vt pol)
                 (\<lambda>(Vt, pol). Inr \<lparr>V = Vt, policy = pol, sol_k = k, sol_N = N\<rparr>))))"

text \<open>
  The closed form that \<^verbatim>\<open>verify_analytical_solution\<close> expects at \<^verbatim>\<open>s\<close>, as a value (for
  \<open>k + 1 \<noteq> 0\<close>, where the remainder is defined).
\<close>

definition expected :: "int \<Rightarrow> int \<Rightarrow> int \<Rightarrow> pynum" where
  "expected k N s = (if (N - s) mod (k + 1) = 0 then Fin (- 1) else Fin 1)"

text \<open>
  The loop \<^verbatim>\<open>for s in range(N + 1)\<close> of \<^verbatim>\<open>verify_analytical_solution\<close>: the expected
  value is computed first (and raises for \<open>k = -1\<close>), then \<^verbatim>\<open>V[s]\<close> is read and compared.
\<close>

fun verify_states :: "pynum list \<Rightarrow> int \<Rightarrow> int \<Rightarrow> int list \<Rightarrow> error + bool" where
  "verify_states Vt k N [] = Inr True"
| "verify_states Vt k N (s # ss) =
     bindE (py_mod (N - s) (k + 1))
       (\<lambda>r. let expected_value = (if r = 0 then Fin (- 1) else Fin 1) in
          bindE (py_get Vt s)
            (\<lambda>v. if v \<noteq> expected_value then Inr False else verify_states Vt k N ss))"

definition verify_analytical_solution :: "int \<Rightarrow> int \<Rightarrow> error + bool" where
  "verify_analytical_solution k N =
     bindE (solve_addition_game k N) (\<lambda>sol. verify_states (V sol) k N [0..N])"

section \<open>Game tree search: \<^verbatim>\<open>minimax_tree\<close> and \<^verbatim>\<open>minimax_ab_tree\<close>\<close>

text \<open>
  \<^verbatim>\<open>class TreeStats\<close>: the node counter, created with \<^verbatim>\<open>nodes = 0\<close> and incremented
  on entry to every call of a search function. The searches take it as an argument and
  mutate it; here each search returns it next to its value.
\<close>

record TreeStats =
  nodes :: int

text \<open>
  The two loops \<^verbatim>\<open>for i in range(1, k + 1)\<close> of \<^verbatim>\<open>minimax_tree\<close>. \<open>body i stats\<close>
  is the value \<^verbatim>\<open>val\<close> of move \<^verbatim>\<open>i\<close> (a recursive call, or the bust value) together
  with the counter after computing it; the loop folds \<^verbatim>\<open>best = max(best, val)\<close>, or
  \<^verbatim>\<open>min\<close> at a node of Player II.
\<close>

fun max_loop :: "(int \<Rightarrow> TreeStats \<Rightarrow> pynum \<times> TreeStats) \<Rightarrow> int list \<Rightarrow> pynum \<Rightarrow> TreeStats
    \<Rightarrow> pynum \<times> TreeStats" where
  "max_loop body [] best stats = (best, stats)"
| "max_loop body (i # is) best stats =
     (case body i stats of (val, stats') \<Rightarrow> max_loop body is (max best val) stats')"

fun min_loop :: "(int \<Rightarrow> TreeStats \<Rightarrow> pynum \<times> TreeStats) \<Rightarrow> int list \<Rightarrow> pynum \<Rightarrow> TreeStats
    \<Rightarrow> pynum \<times> TreeStats" where
  "min_loop body [] best stats = (best, stats)"
| "min_loop body (i # is) best stats =
     (case body i stats of (val, stats') \<Rightarrow> min_loop body is (min best val) stats')"

lemma max_loop_cong [fundef_cong]:
  assumes "is = js" and "\<And>i st. i \<in> set js \<Longrightarrow> body i st = body' i st"
    and "best = best'" and "stats = stats'"
  shows "max_loop body is best stats = max_loop body' js best' stats'"
proof -
  have "max_loop body js b st = max_loop body' js b st" for b st
    using assms(2) by (induction js arbitrary: b st) (auto split: prod.splits)
  with assms show ?thesis by simp
qed

lemma min_loop_cong [fundef_cong]:
  assumes "is = js" and "\<And>i st. i \<in> set js \<Longrightarrow> body i st = body' i st"
    and "best = best'" and "stats = stats'"
  shows "min_loop body is best stats = min_loop body' js best' stats'"
proof -
  have "min_loop body js b st = min_loop body' js b st" for b st
    using assms(2) by (induction js arbitrary: b st) (auto split: prod.splits)
  with assms show ?thesis by simp
qed

function minimax_tree :: "int \<Rightarrow> int \<Rightarrow> int \<Rightarrow> bool \<Rightarrow> TreeStats \<Rightarrow> pynum \<times> TreeStats" where
  "minimax_tree s k N is_player1 stats0 =
     (let stats = stats0\<lparr>nodes := nodes stats0 + 1\<rparr> in
      if s \<ge> N then
        (if is_player1 then (Fin (- 1), stats) else (Fin 1, stats))
      else if is_player1 then
        max_loop (\<lambda>i st. if s + i \<le> N then minimax_tree (s + i) k N False st
                          else (Fin (- 1), st)) [1..k] NegInf stats
      else
        min_loop (\<lambda>i st. if s + i \<le> N then minimax_tree (s + i) k N True st
                          else (Fin 1, st)) [1..k] PosInf stats)"
  by pat_completeness auto
termination
  by (relation "measure (\<lambda>(s, k, N, p, st). nat (N - s))") auto

declare minimax_tree.simps [simp del]

text \<open>
  The loops of \<^verbatim>\<open>minimax_ab_tree\<close>: as above, with the running \<^verbatim>\<open>alpha\<close> (or
  \<^verbatim>\<open>beta\<close>) handed to the recursive call and the \<^verbatim>\<open>break\<close> once \<^verbatim>\<open>alpha >= beta\<close>.
\<close>

fun ab_max_loop :: "(int \<Rightarrow> pynum \<Rightarrow> TreeStats \<Rightarrow> pynum \<times> TreeStats) \<Rightarrow> int list \<Rightarrow> pynum
    \<Rightarrow> pynum \<Rightarrow> pynum \<Rightarrow> TreeStats \<Rightarrow> pynum \<times> TreeStats" where
  "ab_max_loop body [] best alpha beta stats = (best, stats)"
| "ab_max_loop body (i # is) best alpha beta stats =
     (case body i alpha stats of (val, stats') \<Rightarrow>
        let best' = max best val; alpha' = max alpha best' in
        if alpha' \<ge> beta then (best', stats')
        else ab_max_loop body is best' alpha' beta stats')"

fun ab_min_loop :: "(int \<Rightarrow> pynum \<Rightarrow> TreeStats \<Rightarrow> pynum \<times> TreeStats) \<Rightarrow> int list \<Rightarrow> pynum
    \<Rightarrow> pynum \<Rightarrow> pynum \<Rightarrow> TreeStats \<Rightarrow> pynum \<times> TreeStats" where
  "ab_min_loop body [] best alpha beta stats = (best, stats)"
| "ab_min_loop body (i # is) best alpha beta stats =
     (case body i beta stats of (val, stats') \<Rightarrow>
        let best' = min best val; beta' = min beta best' in
        if alpha \<ge> beta' then (best', stats')
        else ab_min_loop body is best' alpha beta' stats')"

lemma ab_max_loop_cong [fundef_cong]:
  assumes "is = js" and "\<And>i a st. i \<in> set js \<Longrightarrow> body i a st = body' i a st"
    and "best = best'" and "alpha = alpha'" and "beta = beta'" and "stats = stats'"
  shows "ab_max_loop body is best alpha beta stats = ab_max_loop body' js best' alpha' beta' stats'"
proof -
  have "ab_max_loop body js b a beta st = ab_max_loop body' js b a beta st" for b a st
    using assms(2) by (induction js arbitrary: b a st) (auto simp: Let_def split: prod.splits)
  with assms show ?thesis by simp
qed

lemma ab_min_loop_cong [fundef_cong]:
  assumes "is = js" and "\<And>i b st. i \<in> set js \<Longrightarrow> body i b st = body' i b st"
    and "best = best'" and "alpha = alpha'" and "beta = beta'" and "stats = stats'"
  shows "ab_min_loop body is best alpha beta stats = ab_min_loop body' js best' alpha' beta' stats'"
proof -
  have "ab_min_loop body js b alpha bt st = ab_min_loop body' js b alpha bt st" for b bt st
    using assms(2) by (induction js arbitrary: b bt st) (auto simp: Let_def split: prod.splits)
  with assms show ?thesis by simp
qed

function minimax_ab_tree :: "int \<Rightarrow> int \<Rightarrow> int \<Rightarrow> bool \<Rightarrow> pynum \<Rightarrow> pynum \<Rightarrow> TreeStats
    \<Rightarrow> pynum \<times> TreeStats" where
  "minimax_ab_tree s k N is_player1 alpha beta stats0 =
     (let stats = stats0\<lparr>nodes := nodes stats0 + 1\<rparr> in
      if s \<ge> N then
        (if is_player1 then Fin (- 1) else Fin 1, stats)
      else if is_player1 then
        ab_max_loop (\<lambda>i a st. if s + i > N then (Fin (- 1), st)
                               else minimax_ab_tree (s + i) k N False a beta st)
          [1..k] NegInf alpha beta stats
      else
        ab_min_loop (\<lambda>i b st. if s + i > N then (Fin 1, st)
                               else minimax_ab_tree (s + i) k N True alpha b st)
          [1..k] PosInf alpha beta stats)"
  by pat_completeness auto
termination
  by (relation "measure (\<lambda>(s, k, N, p, a, b, st). nat (N - s))") auto

declare minimax_ab_tree.simps [simp del]

section \<open>Simulated play: \<^verbatim>\<open>demo_game_play\<close>\<close>

text \<open>
  What \<^verbatim>\<open>demo_game_play\<close> prints is kept as data: one \<open>move\<close> per printed
  \<^verbatim>\<open>Move ...\<close> line (move number, mover, sum before, chosen move, sum after), the player
  named in the final \<^verbatim>\<open>Player ... LOSES\<close> line, and the returned string.
\<close>

record move =
  mv_num :: int
  mv_player :: string
  mv_sum :: int
  mv_pick :: int
  mv_new_sum :: int

record outcome =
  trajectory :: "move list"
  loser :: string
  returned :: string

text \<open>
  The format specification \<^verbatim>\<open>:+d\<close> of the printed values: it accepts an integer only
  (\<^verbatim>\<open>None\<close> raises \<^verbatim>\<open>TypeError\<close>, a float raises \<^verbatim>\<open>ValueError\<close>).
\<close>

definition format_d :: "pynum option \<Rightarrow> error + unit" where
  "format_d x = (case x of None \<Rightarrow> Inl TypeError
                 | Some (Fin n) \<Rightarrow> Inr ()
                 | Some _ \<Rightarrow> Inl ValueError)"

text \<open>The scan for the worst move: \<^verbatim>\<open>for j in range(1, k + 1)\<close> with \<^verbatim>\<open>val < worst_val\<close>.\<close>

fun worst_moves :: "pynum list \<Rightarrow> int \<Rightarrow> int \<Rightarrow> int list \<Rightarrow> pynum \<Rightarrow> int
    \<Rightarrow> error + (pynum \<times> int)" where
  "worst_moves Vt N s [] worst_val i = Inr (worst_val, i)"
| "worst_moves Vt N s (j # js) worst_val i =
     bindE (if s + j \<le> N then bindE (py_get Vt (s + j)) (\<lambda>v. Inr (- v))
            else Inr (Fin (- 1)))
       (\<lambda>val. if val < worst_val then worst_moves Vt N s js val j
               else worst_moves Vt N s js worst_val i)"

text \<open>
  The move of the player at turn: \<^verbatim>\<open>policy[s]\<close> for an optimal player (possibly
  \<^verbatim>\<open>None\<close>), the worst move otherwise.
\<close>

definition choose_move :: "pynum list \<Rightarrow> int option list \<Rightarrow> int \<Rightarrow> int \<Rightarrow> bool \<Rightarrow> bool
    \<Rightarrow> int \<Rightarrow> bool \<Rightarrow> error + int option" where
  "choose_move Vt pol k N p1_optimal p2_optimal s is_p1 =
     (if (is_p1 \<and> p1_optimal) \<or> (\<not> is_p1 \<and> p2_optimal) then py_get pol s
      else bindE (worst_moves Vt N s [1..k] PosInf 1) (\<lambda>(worst_val, i). Inr (Some i)))"

text \<open>
  The \<^verbatim>\<open>while True\<close> loop. It has no bound of its own, so a run that never returns is
  the value \<open>None\<close>. Adding \<^verbatim>\<open>None\<close> to \<^verbatim>\<open>s\<close> raises \<^verbatim>\<open>TypeError\<close>.
\<close>

partial_function (option) game_loop :: "pynum list \<Rightarrow> int option list \<Rightarrow> int \<Rightarrow> int
    \<Rightarrow> bool \<Rightarrow> bool \<Rightarrow> int \<Rightarrow> bool \<Rightarrow> int \<Rightarrow> move list \<Rightarrow> (error + outcome) option" where
  "game_loop Vt pol k N p1_optimal p2_optimal s is_p1 move_num log =
     (let player = (if is_p1 then ''I '' else ''II'') in
      case (if s \<le> N then bindE (py_get Vt s) (\<lambda>v. Inr (Some v)) else Inr None) of
        Inl e \<Rightarrow> Some (Inl e)
      | Inr v_current \<Rightarrow>
          if s = N then
            (case bindE (py_get Vt s) (\<lambda>v. format_d (Some v)) of
               Inl e \<Rightarrow> Some (Inl e)
             | Inr u \<Rightarrow> Some (Inr \<lparr>trajectory = log @
                   [\<lparr>mv_num = move_num, mv_player = player, mv_sum = s, mv_pick = 1,
                     mv_new_sum = s + 1\<rparr>],
                 loser = player, returned = (if is_p1 then ''II'' else ''I'')\<rparr>))
          else
            (case choose_move Vt pol k N p1_optimal p2_optimal s is_p1 of
               Inl e \<Rightarrow> Some (Inl e)
             | Inr None \<Rightarrow> Some (Inl TypeError)
             | Inr (Some i) \<Rightarrow>
                 let s_new = s + i;
                     mv = \<lparr>mv_num = move_num, mv_player = player, mv_sum = s, mv_pick = i,
                            mv_new_sum = s_new\<rparr>
                 in if s_new > N then
                      (case format_d v_current of
                         Inl e \<Rightarrow> Some (Inl e)
                       | Inr u \<Rightarrow> Some (Inr \<lparr>trajectory = log @ [mv], loser = player,
                             returned = (if is_p1 then ''II'' else ''I'')\<rparr>))
                    else
                      (case bindE (py_get Vt s_new) (\<lambda>opp_val.
                              bindE (format_d v_current) (\<lambda>u. format_d (Some opp_val))) of
                         Inl e \<Rightarrow> Some (Inl e)
                       | Inr u \<Rightarrow> game_loop Vt pol k N p1_optimal p2_optimal s_new (\<not> is_p1)
                             (move_num + 1) (log @ [mv]))))"

declare game_loop.simps [code]

definition demo_game_play :: "int \<Rightarrow> int \<Rightarrow> bool \<Rightarrow> bool \<Rightarrow> (error + outcome) option" where
  "demo_game_play k N p1_optimal p2_optimal =
     (case solve_addition_game k N of
        Inl e \<Rightarrow> Some (Inl e)
      | Inr sol \<Rightarrow> game_loop (V sol) (policy sol) k N p1_optimal p2_optimal 0 True 1 [])"

section \<open>Closed forms used in the statements\<close>

text \<open>
  The candidate value of move \<open>i\<close> at state \<open>s\<close>, read off a value table:
  \<^verbatim>\<open>-1\<close> for a busting move, \<^verbatim>\<open>-V[s + i]\<close> otherwise.
\<close>

definition candidate :: "pynum list \<Rightarrow> int \<Rightarrow> int \<Rightarrow> int \<Rightarrow> pynum" where
  "candidate Vt N s i = (if s + i > N then Fin (- 1) else - (Vt ! nat (s + i)))"

text \<open>
  The closed form of the policy: the winning move \<open>(N - s) mod (k + 1)\<close> where there is
  one, and the first scanned move \<open>1\<close> in a losing state.
\<close>

definition policy_closed_form :: "int \<Rightarrow> int \<Rightarrow> int \<Rightarrow> int" where
  "policy_closed_form k N s = (if (N - s) mod (k + 1) = 0 then 1 else (N - s) mod (k + 1))"

text \<open>
  The scan of the solver's inner loop over an arbitrary candidate function: the first
  strict improvement wins.
\<close>

fun scan :: "(int \<Rightarrow> pynum) \<Rightarrow> int list \<Rightarrow> pynum \<Rightarrow> int option \<Rightarrow> pynum \<times> int option" where
  "scan c [] bv bm = (bv, bm)"
| "scan c (i # is) bv bm = (if c i > bv then scan c is (c i) (Some i) else scan c is bv bm)"

text \<open>
  The value and the number of visited nodes of \<^verbatim>\<open>minimax_tree\<close>, read off a run that
  starts with a fresh counter, and the nodes the loop of a node at \<open>s\<close> spends on move
  \<open>i\<close> (none for a busting move).
\<close>

definition mm_val :: "int \<Rightarrow> int \<Rightarrow> int \<Rightarrow> bool \<Rightarrow> pynum" where
  "mm_val s k N is_player1 = fst (minimax_tree s k N is_player1 \<lparr>nodes = 0\<rparr>)"

definition mm_cnt :: "int \<Rightarrow> int \<Rightarrow> int \<Rightarrow> bool \<Rightarrow> int" where
  "mm_cnt s k N is_player1 = nodes (snd (minimax_tree s k N is_player1 \<lparr>nodes = 0\<rparr>))"

definition child_cnt :: "int \<Rightarrow> int \<Rightarrow> int \<Rightarrow> bool \<Rightarrow> int \<Rightarrow> int" where
  "child_cnt s k N is_player1 i = (if s + i \<le> N then mm_cnt (s + i) k N (\<not> is_player1) else 0)"

section \<open>The solver computes the closed form\<close>

lemma bindE_simps [simp]:
  "bindE (Inl e) f = Inl e"
  "bindE (Inr x) f = f x"
  by (simp_all add: bindE_def)

lemma py_get_in_range: "0 \<le> i \<Longrightarrow> i < int (length xs) \<Longrightarrow> py_get xs i = Inr (xs ! nat i)"
  by (simp add: py_get_def py_index_def)

lemma py_set_in_range:
  "0 \<le> i \<Longrightarrow> i < int (length xs) \<Longrightarrow> py_set xs i v = Inr (xs[nat i := v])"
  by (simp add: py_set_def py_index_def)

lemma solve_moves_scan:
  "0 \<le> s \<Longrightarrow> length Vt = nat (N + 1) \<Longrightarrow> \<forall>i\<in>set is. 1 \<le> i \<Longrightarrow>
   solve_moves Vt N s is bv bm = Inr (scan (candidate Vt N s) is bv bm)"
  by (induction "is" arbitrary: bv bm) (simp_all add: Let_def py_get_in_range candidate_def)

lemma scan_props:
  "scan c is bv bm = (bv', bm') \<Longrightarrow>
     bv \<le> bv' \<and> (\<forall>j\<in>set is. c j \<le> bv') \<and>
     ((bv' = bv \<and> bm' = bm) \<or>
      (\<exists>m<length is. bm' = Some (is ! m) \<and> c (is ! m) = bv' \<and> bv < bv' \<and>
          (\<forall>m'<m. c (is ! m') < bv')))"
proof (induction "is" arbitrary: bv bm)
  case Nil
  then show ?case by simp
next
  case (Cons i "is")
  show ?case
  proof (cases "c i > bv")
    case True
    with Cons.prems have run: "scan c is (c i) (Some i) = (bv', bm')" by simp
    from Cons.IH[OF run] have le: "c i \<le> bv'" and all: "\<forall>j\<in>set is. c j \<le> bv'"
      and alt: "(bv' = c i \<and> bm' = Some i) \<or>
        (\<exists>m<length is. bm' = Some (is ! m) \<and> c (is ! m) = bv' \<and> c i < bv' \<and>
          (\<forall>m'<m. c (is ! m') < bv'))" by auto
    from alt have "\<exists>m<length (i # is). bm' = Some ((i # is) ! m) \<and> c ((i # is) ! m) = bv' \<and>
          bv < bv' \<and> (\<forall>m'<m. c ((i # is) ! m') < bv')"
    proof
      assume "bv' = c i \<and> bm' = Some i"
      with True show ?thesis by (intro exI[of _ 0]) simp
    next
      assume "\<exists>m<length is. bm' = Some (is ! m) \<and> c (is ! m) = bv' \<and> c i < bv' \<and>
          (\<forall>m'<m. c (is ! m') < bv')"
      then obtain m where m: "m < length is" "bm' = Some (is ! m)" "c (is ! m) = bv'"
        "c i < bv'" "\<forall>m'<m. c (is ! m') < bv'" by blast
      have "\<forall>m'<Suc m. c ((i # is) ! m') < bv'"
        using m(4,5) by (auto simp: nth_Cons split: nat.splits)
      with m True show ?thesis by (intro exI[of _ "Suc m"]) auto
    qed
    with le all True show ?thesis by auto
  next
    case False
    with Cons.prems have run: "scan c is bv bm = (bv', bm')" by simp
    from Cons.IH[OF run] have le: "bv \<le> bv'" and all: "\<forall>j\<in>set is. c j \<le> bv'"
      and alt: "(bv' = bv \<and> bm' = bm) \<or>
        (\<exists>m<length is. bm' = Some (is ! m) \<and> c (is ! m) = bv' \<and> bv < bv' \<and>
          (\<forall>m'<m. c (is ! m') < bv'))" by auto
    from False have ci: "c i \<le> bv" by simp
    from alt have "(bv' = bv \<and> bm' = bm) \<or>
       (\<exists>m<length (i # is). bm' = Some ((i # is) ! m) \<and> c ((i # is) ! m) = bv' \<and>
          bv < bv' \<and> (\<forall>m'<m. c ((i # is) ! m') < bv'))"
    proof
      assume "bv' = bv \<and> bm' = bm" then show ?thesis by simp
    next
      assume "\<exists>m<length is. bm' = Some (is ! m) \<and> c (is ! m) = bv' \<and> bv < bv' \<and>
          (\<forall>m'<m. c (is ! m') < bv')"
      then obtain m where m: "m < length is" "bm' = Some (is ! m)" "c (is ! m) = bv'"
        "bv < bv'" "\<forall>m'<m. c (is ! m') < bv'" by blast
      have "\<forall>m'<Suc m. c ((i # is) ! m') < bv'"
        using m(4,5) ci by (auto simp: nth_Cons split: nat.splits)
      with m have "\<exists>m<length (i # is). bm' = Some ((i # is) ! m) \<and> c ((i # is) ! m) = bv' \<and>
          bv < bv' \<and> (\<forall>m'<m. c ((i # is) ! m') < bv')"
        by (intro exI[of _ "Suc m"]) auto
      then show ?thesis ..
    qed
    with le all ci show ?thesis by auto
  qed
qed

lemma candidate_closed:
  assumes k: "1 \<le> k" and s: "s < N" and i: "1 \<le> i" "i \<le> k"
  shows "(if s + i > N then Fin (- 1) else - expected k N (s + i))
           = (if (N - s) mod (k + 1) = i then Fin 1 else Fin (- 1))"
proof -
  have imod: "i mod (k + 1) = i" using i by simp
  have rle: "(N - s) mod (k + 1) \<le> N - s"
    using s k by (simp add: zmod_le_nonneg_dividend)
  have eq: "((N - (s + i)) mod (k + 1) = 0) = ((N - s) mod (k + 1) = i)"
  proof -
    have "((N - (s + i)) mod (k + 1) = 0) = ((k + 1) dvd (N - s) - i)"
      by (simp add: dvd_eq_mod_eq_0 algebra_simps)
    also have "\<dots> = ((N - s) mod (k + 1) = i mod (k + 1))"
      by (simp add: mod_eq_dvd_iff)
    finally show ?thesis using imod by simp
  qed
  show ?thesis
  proof (cases "s + i > N")
    case True
    with rle have "(N - s) mod (k + 1) \<noteq> i" by linarith
    with True show ?thesis by simp
  next
    case False
    then show ?thesis using eq by (simp add: expected_def)
  qed
qed

lemma scan_closed:
  assumes k: "1 \<le> k" and s: "s < N"
    and c: "\<forall>i. 1 \<le> i \<and> i \<le> k \<longrightarrow> c i = (if (N - s) mod (k + 1) = i then Fin 1 else Fin (- 1))"
  shows "scan c [1..k] NegInf None = (expected k N s, Some (policy_closed_form k N s))"
proof -
  obtain bv' bm' where run: "scan c [1..k] NegInf None = (bv', bm')" by (cases "scan c [1..k] NegInf None")
  let ?r = "(N - s) mod (k + 1)"
  have r: "0 \<le> ?r" "?r \<le> k"
    using k pos_mod_sign[of "k + 1" "N - s"] pos_mod_bound[of "k + 1" "N - s"] by linarith+
  have len: "length [1..k] = nat k" by simp
  have nth: "\<And>m. m < nat k \<Longrightarrow> [1..k] ! m = 1 + int m" by (simp add: nth_upto)
  from scan_props[OF run] have all: "\<forall>j\<in>set [1..k]. c j \<le> bv'"
    and alt: "(bv' = NegInf \<and> bm' = None) \<or>
      (\<exists>m<length [1..k]. bm' = Some ([1..k] ! m) \<and> c ([1..k] ! m) = bv' \<and> NegInf < bv' \<and>
          (\<forall>m'<m. c ([1..k] ! m') < bv'))" by auto
  from all c have c1: "c 1 \<le> bv'" using k by auto
  have "c 1 \<noteq> NegInf" using c k by auto
  with c1 have "bv' \<noteq> NegInf" by (cases bv'; cases "c 1") auto
  with alt len obtain m where m: "m < nat k" "bm' = Some ([1..k] ! m)" "c ([1..k] ! m) = bv'"
     "\<forall>m'<m. c ([1..k] ! m') < bv'" by auto
  from m(1) nth have nm: "[1..k] ! m = 1 + int m" by simp
  have rng: "1 \<le> 1 + int m" "1 + int m \<le> k" using m(1) by auto
  show ?thesis
  proof (cases "?r = 0")
    case True
    have cm: "c (1 + int m) = Fin (- 1)" using c rng True by auto
    have "m = 0"
    proof (rule ccontr)
      assume "m \<noteq> 0"
      then have "c ([1..k] ! 0) < bv'" using m(4) by auto
      moreover have "[1..k] ! 0 = 1" using nth[of 0] k by simp
      moreover have "c 1 = Fin (- 1)" using c k True by auto
      ultimately show False using cm m(3) nm by simp
    qed
    with m nm cm True run show ?thesis by (simp add: expected_def policy_closed_form_def)
  next
    case False
    with r have r1: "1 \<le> ?r" by simp
    have "c ?r = Fin 1" using c r1 r by auto
    moreover have "c ?r \<le> bv'" using all r1 r by auto
    ultimately have ge: "Fin 1 \<le> bv'" by simp
    have "c (1 + int m) = (if ?r = 1 + int m then Fin 1 else Fin (- 1))" using c rng by blast
    moreover have "c (1 + int m) = bv'" using m(3) nm by simp
    ultimately have "bv' = (if ?r = 1 + int m then Fin 1 else Fin (- 1))" by simp
    with ge have "?r = 1 + int m \<and> bv' = Fin 1" by (cases "?r = 1 + int m") simp_all
    with m nm False run show ?thesis by (simp add: expected_def policy_closed_form_def)
  qed
qed

lemma solve_step:
  assumes k: "1 \<le> k" and s: "0 \<le> s" "s < N" and len: "length Vt = nat (N + 1)"
    and inv: "\<forall>t. s < t \<and> t \<le> N \<longrightarrow> Vt ! nat t = expected k N t"
  shows "solve_moves Vt N s [1..k] NegInf None = Inr (expected k N s, Some (policy_closed_form k N s))"
proof -
  have "solve_moves Vt N s [1..k] NegInf None
          = Inr (scan (candidate Vt N s) [1..k] NegInf None)"
    using s len by (intro solve_moves_scan) auto
  moreover have "\<forall>i. 1 \<le> i \<and> i \<le> k \<longrightarrow>
      candidate Vt N s i = (if (N - s) mod (k + 1) = i then Fin 1 else Fin (- 1))"
  proof (intro allI impI)
    fix i assume i: "1 \<le> i \<and> i \<le> k"
    have "candidate Vt N s i = (if s + i > N then Fin (- 1) else - expected k N (s + i))"
      using inv i by (simp add: candidate_def)
    then show "candidate Vt N s i = (if (N - s) mod (k + 1) = i then Fin 1 else Fin (- 1))"
      using candidate_closed[OF k s(2), of i] i by simp
  qed
  ultimately show ?thesis using scan_closed[OF k s(2)] by simp
qed

lemma rev_upto_step: "1 \<le> m \<Longrightarrow> rev [0..m - 1] = (m - 1) # rev [0..m - 2]"
  using upto_rec2[of 0 "m - 1"] by simp

lemma solve_states_closed:
  assumes k: "1 \<le> k"
  shows "int m \<le> N \<Longrightarrow> length Vt = nat (N + 1) \<Longrightarrow> length pol = nat (N + 1) \<Longrightarrow>
    (\<forall>t. int m \<le> t \<and> t \<le> N \<longrightarrow> Vt ! nat t = expected k N t) \<Longrightarrow>
    \<exists>Vt' pol'. solve_states k N (rev [0..int m - 1]) Vt pol = Inr (Vt', pol') \<and>
       length Vt' = nat (N + 1) \<and> length pol' = nat (N + 1) \<and>
       (\<forall>t. 0 \<le> t \<and> t \<le> N \<longrightarrow> Vt' ! nat t = expected k N t) \<and>
       (\<forall>t. 0 \<le> t \<and> t < int m \<longrightarrow> pol' ! nat t = Some (policy_closed_form k N t)) \<and>
       (\<forall>t. int m \<le> t \<and> t \<le> N \<longrightarrow> pol' ! nat t = pol ! nat t)"
proof (induction m arbitrary: Vt pol)
  case 0
  then show ?case by auto
next
  case (Suc m)
  let ?s = "int m"
  let ?Vt = "Vt[nat ?s := expected k N ?s]"
  let ?pol = "pol[nat ?s := Some (policy_closed_form k N ?s)]"
  have sN: "?s < N" using Suc.prems(1) by simp
  have list: "rev [0..int (Suc m) - 1] = ?s # rev [0..?s - 1]"
    using rev_upto_step[of "int (Suc m)"] by simp
  have step: "solve_moves Vt N ?s [1..k] NegInf None
                = Inr (expected k N ?s, Some (policy_closed_form k N ?s))"
    using Suc.prems by (intro solve_step[OF k]) auto
  have setV: "py_set Vt ?s (expected k N ?s) = Inr ?Vt"
    using sN Suc.prems(2) by (intro py_set_in_range) auto
  have setp: "py_set pol ?s (Some (policy_closed_form k N ?s)) = Inr ?pol"
    using sN Suc.prems(3) by (intro py_set_in_range) auto
  have unfold: "solve_states k N (rev [0..int (Suc m) - 1]) Vt pol
                  = solve_states k N (rev [0..?s - 1]) ?Vt ?pol"
    by (simp only: list solve_states.simps step bindE_simps setV setp prod.case)
  have inv': "\<forall>t. ?s \<le> t \<and> t \<le> N \<longrightarrow> ?Vt ! nat t = expected k N t"
  proof (intro allI impI)
    fix t assume t: "?s \<le> t \<and> t \<le> N"
    show "?Vt ! nat t = expected k N t"
    proof (cases "t = ?s")
      case True
      then show ?thesis using sN Suc.prems(2) by simp
    next
      case False
      with t have "nat t \<noteq> nat ?s" "int (Suc m) \<le> t" by auto
      then show ?thesis using Suc.prems(4) t by simp
    qed
  qed
  from Suc.IH[of ?Vt ?pol, OF _ _ _ inv'] sN Suc.prems(2,3)
  obtain Vt' pol' where res: "solve_states k N (rev [0..?s - 1]) ?Vt ?pol = Inr (Vt', pol')"
    "length Vt' = nat (N + 1)" "length pol' = nat (N + 1)"
    "\<forall>t. 0 \<le> t \<and> t \<le> N \<longrightarrow> Vt' ! nat t = expected k N t"
    "\<forall>t. 0 \<le> t \<and> t < ?s \<longrightarrow> pol' ! nat t = Some (policy_closed_form k N t)"
    "\<forall>t. ?s \<le> t \<and> t \<le> N \<longrightarrow> pol' ! nat t = ?pol ! nat t"
    by auto
  have p1: "\<forall>t. 0 \<le> t \<and> t < int (Suc m) \<longrightarrow> pol' ! nat t = Some (policy_closed_form k N t)"
  proof (intro allI impI)
    fix t assume t: "0 \<le> t \<and> t < int (Suc m)"
    show "pol' ! nat t = Some (policy_closed_form k N t)"
    proof (cases "t = ?s")
      case True
      have "pol' ! nat ?s = ?pol ! nat ?s" using res(6) sN by auto
      then show ?thesis using True sN Suc.prems(3) by simp
    next
      case False
      with t show ?thesis using res(5) by simp
    qed
  qed
  have p2: "\<forall>t. int (Suc m) \<le> t \<and> t \<le> N \<longrightarrow> pol' ! nat t = pol ! nat t"
  proof (intro allI impI)
    fix t assume t: "int (Suc m) \<le> t \<and> t \<le> N"
    then have "nat t \<noteq> nat ?s" by linarith
    moreover have "pol' ! nat t = ?pol ! nat t" using res(6) t by auto
    ultimately show "pol' ! nat t = pol ! nat t" by simp
  qed
  show ?case using unfold res(1-4) p1 p2 by simp
qed

lemma solve_closed:
  assumes k: "1 \<le> k" and N: "0 \<le> N"
  shows "\<exists>sol. solve_addition_game k N = Inr sol \<and>
     length (V sol) = nat (N + 1) \<and> length (policy sol) = nat (N + 1) \<and>
     (\<forall>t. 0 \<le> t \<and> t \<le> N \<longrightarrow> V sol ! nat t = expected k N t) \<and>
     (\<forall>t. 0 \<le> t \<and> t < N \<longrightarrow> policy sol ! nat t = Some (policy_closed_form k N t)) \<and>
     policy sol ! nat N = None \<and> sol_k sol = k \<and> sol_N sol = N"
proof -
  let ?V0 = "(py_repeat (Fin 0) (N + 1))[nat N := Fin (- 1)]"
  let ?p0 = "(py_repeat (Some 0) (N + 1))[nat N := None]"
  have setV: "py_set (py_repeat (Fin 0) (N + 1)) N (Fin (- 1)) = Inr ?V0"
    using N by (intro py_set_in_range) (auto simp: py_repeat_def)
  have setp: "py_set (py_repeat (Some 0) (N + 1)) N None = Inr ?p0"
    using N by (intro py_set_in_range) (auto simp: py_repeat_def)
  have inv: "\<forall>t. int (nat N) \<le> t \<and> t \<le> N \<longrightarrow> ?V0 ! nat t = expected k N t"
    using N by (auto simp: py_repeat_def expected_def)
  from solve_states_closed[OF k, of "nat N" N ?V0 ?p0, OF _ _ _ inv] N
  obtain Vt' pol' where res: "solve_states k N (rev [0..N - 1]) ?V0 ?p0 = Inr (Vt', pol')"
    "length Vt' = nat (N + 1)" "length pol' = nat (N + 1)"
    "\<forall>t. 0 \<le> t \<and> t \<le> N \<longrightarrow> Vt' ! nat t = expected k N t"
    "\<forall>t. 0 \<le> t \<and> t < N \<longrightarrow> pol' ! nat t = Some (policy_closed_form k N t)"
    "\<forall>t. N \<le> t \<and> t \<le> N \<longrightarrow> pol' ! nat t = ?p0 ! nat t"
    by (auto simp: py_repeat_def)
  have "pol' ! nat N = None" using res(6) N by (simp add: py_repeat_def)
  moreover have "solve_addition_game k N = Inr \<lparr>V = Vt', policy = pol', sol_k = k, sol_N = N\<rparr>"
    by (simp add: solve_addition_game_def Let_def setV setp res(1))
  ultimately show ?thesis using res(2-5) by simp
qed

lemma verify_states_ok:
  "k + 1 \<noteq> 0 \<Longrightarrow> length Vt = nat (N + 1) \<Longrightarrow>
   \<forall>t\<in>set ss. 0 \<le> t \<and> t \<le> N \<and> Vt ! nat t = expected k N t \<Longrightarrow>
   verify_states Vt k N ss = Inr True"
  by (induction ss) (auto simp: py_get_in_range py_mod_def expected_def Let_def)

lemma verify_ok:
  assumes "1 \<le> k" and "0 \<le> N"
  shows "verify_analytical_solution k N = Inr True"
proof -
  from solve_closed[OF assms] obtain sol where sol: "solve_addition_game k N = Inr sol"
    "length (V sol) = nat (N + 1)"
    "\<forall>t. 0 \<le> t \<and> t \<le> N \<longrightarrow> V sol ! nat t = expected k N t" by blast
  have "verify_states (V sol) k N [0..N] = Inr True"
    using sol(2,3) assms(1) by (intro verify_states_ok) auto
  with sol(1) show ?thesis by (simp add: verify_analytical_solution_def)
qed

section \<open>Properties of the solver\<close>

text \<open>
  C1. For every \<open>k \<ge> 1\<close>, \<open>N \<ge> 0\<close> and every \<open>s\<close> with \<open>0 \<le> s \<le> N\<close>, the solver returns a
  table whose entry \<open>V[s]\<close> is \<open>-1\<close> if \<open>(N - s) mod (k + 1) = 0\<close> and \<open>+1\<close> otherwise;
  accordingly \<^verbatim>\<open>verify_analytical_solution\<close>, which compares the table with this closed
  form at every state, returns \<^verbatim>\<open>True\<close>.
\<close>

theorem dp_equals_closed_form:
  assumes "1 \<le> k" and "0 \<le> N" and "0 \<le> s" and "s \<le> N"
  shows "\<exists>sol. solve_addition_game k N = Inr sol \<and>
           py_get (V sol) s = Inr (if (N - s) mod (k + 1) = 0 then Fin (- 1) else Fin 1) \<and>
           verify_analytical_solution k N = Inr True"
proof -
  from solve_closed[OF assms(1,2)] obtain sol where sol: "solve_addition_game k N = Inr sol"
    "length (V sol) = nat (N + 1)"
    "\<forall>t. 0 \<le> t \<and> t \<le> N \<longrightarrow> V sol ! nat t = expected k N t" by blast
  have "py_get (V sol) s = Inr (V sol ! nat s)"
    using assms sol(2) by (intro py_get_in_range) auto
  with sol(1,3) assms verify_ok[OF assms(1,2)] show ?thesis by (simp add: expected_def)
qed

theorem dp_equals_closed_form_witness:
  "(1::int) \<le> 3 \<and> (0::int) \<le> 10 \<and> (0::int) \<le> 4 \<and> (4::int) \<le> 10 \<and>
   (\<exists>sol. solve_addition_game 3 10 = Inr sol \<and> py_get (V sol) 4 = Inr (Fin 1) \<and>
      verify_analytical_solution 3 10 = Inr True)"
  using dp_equals_closed_form[of 3 10 4] by simp

text \<open>
  C6. For every \<open>k \<ge> 1\<close> and \<open>N \<ge> 0\<close> the entry \<open>V[N]\<close> of the returned table is \<open>-1\<close>, the
  forced-bust base case; for \<open>N = 0\<close> it is the only entry.
\<close>

theorem base_case_value:
  assumes "1 \<le> k" and "0 \<le> N"
  shows "\<exists>sol. solve_addition_game k N = Inr sol \<and> py_get (V sol) N = Inr (Fin (- 1))"
proof -
  from solve_closed[OF assms(1,2)] obtain sol where sol: "solve_addition_game k N = Inr sol"
    "length (V sol) = nat (N + 1)"
    "\<forall>t. 0 \<le> t \<and> t \<le> N \<longrightarrow> V sol ! nat t = expected k N t" by blast
  have "py_get (V sol) N = Inr (V sol ! nat N)"
    using assms sol(2) by (intro py_get_in_range) auto
  with sol(1,3) assms show ?thesis by (simp add: expected_def)
qed

theorem base_case_value_witness:
  "(1::int) \<le> 2 \<and> (0::int) \<le> 0 \<and>
   (\<exists>sol. solve_addition_game 2 0 = Inr sol \<and> py_get (V sol) 0 = Inr (Fin (- 1)))"
  using base_case_value[of 2 0] by simp

text \<open>
  C10. For every \<open>k \<ge> 1\<close>, \<open>N \<ge> 1\<close> and every state \<open>0 \<le> s < N\<close>, the returned policy is
  \<open>policy[s] = (N - s) mod (k + 1)\<close> when this is not \<open>0\<close> (the winning move), and
  \<open>policy[s] = 1\<close> when it is \<open>0\<close> (a losing state, where the first scanned move is kept).
\<close>

theorem policy_closed:
  assumes "1 \<le> k" and "1 \<le> N" and "0 \<le> s" and "s < N"
  shows "\<exists>sol. solve_addition_game k N = Inr sol \<and>
           py_get (policy sol) s =
             Inr (Some (if (N - s) mod (k + 1) \<noteq> 0 then (N - s) mod (k + 1) else 1))"
proof -
  have N: "0 \<le> N" using assms(2) by simp
  from solve_closed[OF assms(1) N] obtain sol where sol: "solve_addition_game k N = Inr sol"
    "length (policy sol) = nat (N + 1)"
    "\<forall>t. 0 \<le> t \<and> t < N \<longrightarrow> policy sol ! nat t = Some (policy_closed_form k N t)" by blast
  have "py_get (policy sol) s = Inr (policy sol ! nat s)"
    using assms sol(2) by (intro py_get_in_range) auto
  with sol(1,3) assms show ?thesis by (simp add: policy_closed_form_def)
qed

theorem policy_closed_witness:
  "(1::int) \<le> 3 \<and> (1::int) \<le> 10 \<and> (0::int) \<le> 3 \<and> (3::int) < 10 \<and>
   (\<exists>sol. solve_addition_game 3 10 = Inr sol \<and> py_get (policy sol) 3 = Inr (Some 3))"
  using policy_closed[of 3 10 3] by simp

text \<open>
  C5. For every \<open>k \<ge> 1\<close> and \<open>N \<ge> 0\<close> the returned policy table has length \<open>N + 1\<close>,
  \<open>policy[N]\<close> is \<^verbatim>\<open>None\<close>, and for every state \<open>s < N\<close> the entry \<open>policy[s]\<close> is a move
  \<open>i\<close> with \<open>1 \<le> i \<le> k\<close> whose candidate value (\<open>-V[s + i]\<close> if \<open>s + i \<le> N\<close>, else \<open>-1\<close>)
  equals \<open>V[s]\<close>, and no smaller move has a candidate value equal to \<open>V[s]\<close>.
\<close>

theorem policy_attains_first_maximum:
  assumes "1 \<le> k" and "0 \<le> N"
  shows "\<exists>sol. solve_addition_game k N = Inr sol \<and>
           int (length (policy sol)) = N + 1 \<and>
           py_get (policy sol) N = Inr None \<and>
           (\<forall>s. 0 \<le> s \<and> s < N \<longrightarrow>
              (\<exists>i. py_get (policy sol) s = Inr (Some i) \<and> 1 \<le> i \<and> i \<le> k \<and>
                   py_get (V sol) s = Inr (candidate (V sol) N s i) \<and>
                   (\<forall>j. 1 \<le> j \<and> j < i \<longrightarrow>
                      Inr (candidate (V sol) N s j) \<noteq> py_get (V sol) s)))"
proof -
  from solve_closed[OF assms(1,2)] obtain sol where sol: "solve_addition_game k N = Inr sol"
    "length (V sol) = nat (N + 1)" "length (policy sol) = nat (N + 1)"
    "\<forall>t. 0 \<le> t \<and> t \<le> N \<longrightarrow> V sol ! nat t = expected k N t"
    "\<forall>t. 0 \<le> t \<and> t < N \<longrightarrow> policy sol ! nat t = Some (policy_closed_form k N t)"
    "policy sol ! nat N = None" by blast
  have len: "int (length (policy sol)) = N + 1" using sol(3) assms(2) by simp
  have getN: "py_get (policy sol) N = Inr None"
    using assms sol(3,6) by (simp add: py_get_in_range)
  have entry: "\<exists>i. py_get (policy sol) s = Inr (Some i) \<and> 1 \<le> i \<and> i \<le> k \<and>
                   py_get (V sol) s = Inr (candidate (V sol) N s i) \<and>
                   (\<forall>j. 1 \<le> j \<and> j < i \<longrightarrow>
                      Inr (candidate (V sol) N s j) \<noteq> py_get (V sol) s)"
    if s: "0 \<le> s" "s < N" for s
  proof -
    let ?r = "(N - s) mod (k + 1)"
    let ?i = "policy_closed_form k N s"
    have r: "0 \<le> ?r" "?r \<le> k"
      using assms(1) pos_mod_sign[of "k + 1" "N - s"] pos_mod_bound[of "k + 1" "N - s"]
      by linarith+
    have i: "1 \<le> ?i" "?i \<le> k"
      unfolding policy_closed_form_def using r assms(1) by (cases "?r = 0"; simp; linarith)+
    have cand: "candidate (V sol) N s j = (if ?r = j then Fin 1 else Fin (- 1))"
      if j: "1 \<le> j" "j \<le> k" for j
    proof -
      have "candidate (V sol) N s j = (if s + j > N then Fin (- 1) else - expected k N (s + j))"
        using sol(4) j s(1) by (simp add: candidate_def)
      then show ?thesis using candidate_closed[OF assms(1) s(2) j] by simp
    qed
    have getV: "py_get (V sol) s = Inr (expected k N s)"
      using s sol(2,4) by (simp add: py_get_in_range)
    have getp: "py_get (policy sol) s = Inr (Some ?i)"
      using s sol(3,5) by (simp add: py_get_in_range)
    have at: "candidate (V sol) N s ?i = expected k N s"
      using cand[OF i] by (auto simp: policy_closed_form_def expected_def)
    have first: "\<forall>j. 1 \<le> j \<and> j < ?i \<longrightarrow> candidate (V sol) N s j \<noteq> expected k N s"
    proof (intro allI impI)
      fix j assume j: "1 \<le> j \<and> j < ?i"
      then have "j \<le> k" using i by simp
      with j have "candidate (V sol) N s j = (if ?r = j then Fin 1 else Fin (- 1))"
        using cand by simp
      with j show "candidate (V sol) N s j \<noteq> expected k N s"
        by (auto simp: policy_closed_form_def expected_def split: if_splits)
    qed
    show ?thesis using getV getp i at first by auto
  qed
  show ?thesis using sol(1) len getN entry by (intro exI[of _ sol]) blast
qed

theorem policy_attains_first_maximum_witness:
  "(1::int) \<le> 3 \<and> (0::int) \<le> 10 \<and> (0::int) \<le> 3 \<and> (3::int) < 10 \<and>
   (\<exists>sol. solve_addition_game 3 10 = Inr sol \<and>
           int (length (policy sol)) = 10 + 1 \<and>
           py_get (policy sol) 10 = Inr None \<and>
           (\<exists>i. py_get (policy sol) 3 = Inr (Some i) \<and> 1 \<le> i \<and> i \<le> 3 \<and>
                py_get (V sol) 3 = Inr (candidate (V sol) 10 3 i) \<and>
                (\<forall>j. 1 \<le> j \<and> j < i \<longrightarrow> Inr (candidate (V sol) 10 3 j) \<noteq> py_get (V sol) 3))) \<and>
   (0::int) \<le> 0 \<and>
   (\<exists>sol. solve_addition_game 3 0 = Inr sol \<and>
           int (length (policy sol)) = 0 + 1 \<and>
           py_get (policy sol) 0 = Inr None)"
proof -
  have h: "(1::int) \<le> 3" "(0::int) \<le> 10" "(0::int) \<le> 3" "(3::int) < 10" "(0::int) \<le> 0"
    by simp_all
  from policy_attains_first_maximum[OF h(1,2)]
  have a: "\<exists>sol. solve_addition_game 3 10 = Inr sol \<and>
           int (length (policy sol)) = 10 + 1 \<and>
           py_get (policy sol) 10 = Inr None \<and>
           (\<exists>i. py_get (policy sol) 3 = Inr (Some i) \<and> 1 \<le> i \<and> i \<le> 3 \<and>
                py_get (V sol) 3 = Inr (candidate (V sol) 10 3 i) \<and>
                (\<forall>j. 1 \<le> j \<and> j < i \<longrightarrow> Inr (candidate (V sol) 10 3 j) \<noteq> py_get (V sol) 3))"
    using h(3,4) by blast
  from policy_attains_first_maximum[OF h(1,5)]
  have b: "\<exists>sol. solve_addition_game 3 0 = Inr sol \<and>
           int (length (policy sol)) = 0 + 1 \<and>
           py_get (policy sol) 0 = Inr None"
    by blast
  from h a b show ?thesis by blast
qed

subsection \<open>Parameters outside \<open>k \<ge> 1\<close>, \<open>N \<ge> 0\<close>\<close>

lemma solve_negative: "N < 0 \<Longrightarrow> solve_addition_game k N = Inl IndexError"
  by (simp add: solve_addition_game_def py_repeat_def py_set_def py_index_def Let_def)

lemma solve_states_degenerate:
  assumes k: "k < 1"
  shows "int m \<le> N \<Longrightarrow> length Vt = nat (N + 1) \<Longrightarrow> length pol = nat (N + 1) \<Longrightarrow>
    \<exists>Vt' pol'. solve_states k N (rev [0..int m - 1]) Vt pol = Inr (Vt', pol') \<and>
       length Vt' = nat (N + 1) \<and> length pol' = nat (N + 1) \<and>
       (\<forall>t<m. Vt' ! t = NegInf \<and> pol' ! t = None) \<and>
       (\<forall>t\<ge>m. Vt' ! t = Vt ! t \<and> pol' ! t = pol ! t)"
proof (induction m arbitrary: Vt pol)
  case 0
  then show ?case by simp
next
  case (Suc m)
  let ?s = "int m"
  let ?Vt = "Vt[m := NegInf]"
  let ?pol = "pol[m := None]"
  have sN: "?s < N" using Suc.prems(1) by simp
  have list: "rev [0..int (Suc m) - 1] = ?s # rev [0..?s - 1]"
    using rev_upto_step[of "int (Suc m)"] by simp
  have step: "solve_moves Vt N ?s [1..k] NegInf None = Inr (NegInf, None)"
    using k by simp
  have setV: "py_set Vt ?s NegInf = Inr ?Vt"
    using sN Suc.prems(2) py_set_in_range[of ?s Vt NegInf] by simp
  have setp: "py_set pol ?s None = Inr ?pol"
    using sN Suc.prems(3) py_set_in_range[of ?s pol None] by simp
  have unfold: "solve_states k N (rev [0..int (Suc m) - 1]) Vt pol
                  = solve_states k N (rev [0..?s - 1]) ?Vt ?pol"
    by (simp only: list solve_states.simps step bindE_simps setV setp prod.case)
  from Suc.IH[of ?Vt ?pol] sN Suc.prems(2,3)
  obtain Vt' pol' where res: "solve_states k N (rev [0..?s - 1]) ?Vt ?pol = Inr (Vt', pol')"
    "length Vt' = nat (N + 1)" "length pol' = nat (N + 1)"
    "\<forall>t<m. Vt' ! t = NegInf \<and> pol' ! t = None"
    "\<forall>t\<ge>m. Vt' ! t = ?Vt ! t \<and> pol' ! t = ?pol ! t"
    by auto
  have m: "m < length Vt" "m < length pol" using sN Suc.prems(2,3) by auto
  have lo: "\<forall>t<Suc m. Vt' ! t = NegInf \<and> pol' ! t = None"
    using res(4,5) m by (auto simp: less_Suc_eq)
  have hi: "\<forall>t\<ge>Suc m. Vt' ! t = Vt ! t \<and> pol' ! t = pol ! t"
    using res(5) by auto
  show ?case using unfold res(1-3) lo hi by simp
qed

lemma solve_degenerate:
  assumes k: "k < 1" and N: "0 \<le> N"
  shows "solve_addition_game k N =
     Inr \<lparr>V = replicate (nat N) NegInf @ [Fin (- 1)], policy = replicate (nat (N + 1)) None,
          sol_k = k, sol_N = N\<rparr>"
proof -
  let ?V0 = "(py_repeat (Fin 0) (N + 1))[nat N := Fin (- 1)]"
  let ?p0 = "(py_repeat (Some 0) (N + 1))[nat N := None]"
  have setV: "py_set (py_repeat (Fin 0) (N + 1)) N (Fin (- 1)) = Inr ?V0"
    using N by (intro py_set_in_range) (auto simp: py_repeat_def)
  have setp: "py_set (py_repeat (Some 0) (N + 1)) N None = Inr ?p0"
    using N by (intro py_set_in_range) (auto simp: py_repeat_def)
  from solve_states_degenerate[OF k, of "nat N" N ?V0 ?p0] N
  obtain Vt' pol' where res: "solve_states k N (rev [0..N - 1]) ?V0 ?p0 = Inr (Vt', pol')"
    "length Vt' = nat (N + 1)" "length pol' = nat (N + 1)"
    "\<forall>t<nat N. Vt' ! t = NegInf \<and> pol' ! t = None"
    "\<forall>t\<ge>nat N. Vt' ! t = ?V0 ! t \<and> pol' ! t = ?p0 ! t"
    by (auto simp: py_repeat_def)
  have len: "nat (N + 1) = Suc (nat N)" using N by simp
  have last: "Vt' ! nat N = Fin (- 1)" "pol' ! nat N = None"
    using res(5) N by (simp_all add: py_repeat_def)
  have "Vt' = replicate (nat N) NegInf @ [Fin (- 1)]"
  proof (rule nth_equalityI)
    show "length Vt' = length (replicate (nat N) NegInf @ [Fin (- 1)])"
      using res(2) len by simp
    fix t assume "t < length Vt'"
    then have t: "t < Suc (nat N)" using res(2) len by simp
    show "Vt' ! t = (replicate (nat N) NegInf @ [Fin (- 1)]) ! t"
    proof (cases "t < nat N")
      case True
      then show ?thesis using res(4) by (simp add: nth_append)
    next
      case False
      with t have "t = nat N" by simp
      then show ?thesis using last by (simp add: nth_append)
    qed
  qed
  moreover have "pol' = replicate (nat (N + 1)) None"
  proof (rule nth_equalityI)
    show "length pol' = length (replicate (nat (N + 1)) (None::int option))"
      using res(3) len by simp
    fix t assume "t < length pol'"
    then have t: "t < nat (N + 1)" using res(3) by simp
    show "pol' ! t = replicate (nat (N + 1)) None ! t"
    proof (cases "t < nat N")
      case True
      then show ?thesis using res(4) t by simp
    next
      case False
      with t have "t = nat N" by linarith
      then show ?thesis using last t by simp
    qed
  qed
  ultimately show ?thesis
    by (simp add: solve_addition_game_def Let_def setV setp res(1))
qed

text \<open>
  C3, as the code has it. The solver checks neither parameter. For \<open>N < 0\<close> the tables
  are allocated empty and the base-case assignment \<^verbatim>\<open>V[N] = -1\<close> raises \<^verbatim>\<open>IndexError\<close>.
  For \<open>N \<ge> 0\<close> and \<open>k < 1\<close> nothing is raised: the move loop is empty, and the solver
  returns \<open>V = [-inf] * N + [-1]\<close> and a policy table of \<open>N + 1\<close> entries \<^verbatim>\<open>None\<close>.
\<close>

theorem no_parameter_check:
  "(N < 0 \<longrightarrow> solve_addition_game k N = Inl IndexError) \<and>
   (0 \<le> N \<and> k < 1 \<longrightarrow>
      solve_addition_game k N =
        Inr \<lparr>V = replicate (nat N) NegInf @ [Fin (- 1)], policy = replicate (nat (N + 1)) None,
             sol_k = k, sol_N = N\<rparr>)"
  using solve_negative solve_degenerate by blast

theorem no_parameter_check_witness:
  "solve_addition_game 2 (- 3) = Inl IndexError \<and>
   solve_addition_game (- 1) 2 =
     Inr \<lparr>V = [NegInf, NegInf, Fin (- 1)], policy = [None, None, None], sol_k = - 1, sol_N = 2\<rparr>"
  using no_parameter_check[of "- 3" 2] no_parameter_check[of 2 "- 1"]
  by (simp add: numeral_2_eq_2 numeral_3_eq_3)

text \<open>
  C3 as stated fails: \<open>k = 0\<close>, \<open>N = 1\<close> returns a table silently, and \<open>N = -1\<close> shows
  up as an index error.
\<close>

theorem invalid_parameters_counterexample:
  "solve_addition_game 0 1 =
     Inr \<lparr>V = [NegInf, Fin (- 1)], policy = [None, None], sol_k = 0, sol_N = 1\<rparr> \<and>
   solve_addition_game 1 (- 1) = Inl IndexError"
  by code_simp

section \<open>Properties of the tree searches\<close>

text \<open>
  C7. At a terminal state \<open>s \<ge> N\<close>, \<^verbatim>\<open>minimax_tree\<close> returns \<open>-1\<close> when Player I is to
  move and \<open>+1\<close> when Player II is, and \<^verbatim>\<open>minimax_ab_tree\<close> returns the same for any
  \<open>alpha\<close> and \<open>beta\<close>. Neither \<open>k\<close> nor the counter matters (the statement holds for all
  \<open>k\<close> and \<open>N\<close>, in particular for \<open>k \<ge> 1\<close> and \<open>N \<ge> 0\<close>).
\<close>

theorem terminal_values:
  assumes "N \<le> s"
  shows "fst (minimax_tree s k N is_player1 stats) = (if is_player1 then Fin (- 1) else Fin 1) \<and>
         fst (minimax_ab_tree s k N is_player1 alpha beta stats)
           = (if is_player1 then Fin (- 1) else Fin 1)"
  using assms by (simp add: minimax_tree.simps minimax_ab_tree.simps Let_def)

theorem terminal_values_witness:
  "(4::int) \<le> 6 \<and>
   fst (minimax_tree 6 3 4 True \<lparr>nodes = 0\<rparr>) = Fin (- 1) \<and>
   fst (minimax_ab_tree 6 3 4 True (Fin 1) (Fin (- 1)) \<lparr>nodes = 0\<rparr>) = Fin (- 1)"
  using terminal_values[of 4 6 3 True "\<lparr>nodes = 0\<rparr>" "Fin 1" "Fin (- 1)"] by simp

subsection \<open>The plain search: value and node count\<close>

lemma max_loop_pure:
  assumes "\<And>i st. i \<in> set is \<Longrightarrow> body i st = (g i, st\<lparr>nodes := nodes st + c i\<rparr>)"
  shows "max_loop body is best st
           = (fold (\<lambda>i b. max b (g i)) is best, st\<lparr>nodes := nodes st + sum_list (map c is)\<rparr>)"
  using assms by (induction "is" arbitrary: best st) (simp_all add: add.assoc)

lemma min_loop_pure:
  assumes "\<And>i st. i \<in> set is \<Longrightarrow> body i st = (g i, st\<lparr>nodes := nodes st + c i\<rparr>)"
  shows "min_loop body is best st
           = (fold (\<lambda>i b. min b (g i)) is best, st\<lparr>nodes := nodes st + sum_list (map c is)\<rparr>)"
  using assms by (induction "is" arbitrary: best st) (simp_all add: add.assoc)

lemma minimax_tree_pure_aux:
  "minimax_tree s k N p st =
     (fst (minimax_tree s k N p \<lparr>nodes = 0\<rparr>),
      st\<lparr>nodes := nodes st + nodes (snd (minimax_tree s k N p \<lparr>nodes = 0\<rparr>))\<rparr>)"
proof (induction "nat (N - s)" arbitrary: s p st rule: less_induct)
  case less
  show ?case
  proof (cases "N \<le> s")
    case True
    then show ?thesis by (simp add: minimax_tree.simps Let_def)
  next
    case False
    let ?g = "\<lambda>q i. if s + i \<le> N then fst (minimax_tree (s + i) k N q \<lparr>nodes = 0\<rparr>)
                    else (if q then Fin 1 else Fin (- 1))"
    let ?c = "\<lambda>q i. if s + i \<le> N then nodes (snd (minimax_tree (s + i) k N q \<lparr>nodes = 0\<rparr>))
                    else 0"
    have IH: "minimax_tree (s + i) k N q st' =
         (fst (minimax_tree (s + i) k N q \<lparr>nodes = 0\<rparr>),
          st'\<lparr>nodes := nodes st' + nodes (snd (minimax_tree (s + i) k N q \<lparr>nodes = 0\<rparr>))\<rparr>)"
      if "i \<in> set [1..k]" "s + i \<le> N" for i q st'
      using that False by (intro less) auto
    have bmax: "(if s + i \<le> N then minimax_tree (s + i) k N False st' else (Fin (- 1), st'))
              = (?g False i, st'\<lparr>nodes := nodes st' + ?c False i\<rparr>)"
      if "i \<in> set [1..k]" for i st'
      using IH[OF that, of False st'] by simp
    have bmin: "(if s + i \<le> N then minimax_tree (s + i) k N True st' else (Fin 1, st'))
              = (?g True i, st'\<lparr>nodes := nodes st' + ?c True i\<rparr>)"
      if "i \<in> set [1..k]" for i st'
      using IH[OF that, of True st'] by simp
    show ?thesis
    proof (cases p)
      case True
      have loop: "max_loop (\<lambda>i st. if s + i \<le> N then minimax_tree (s + i) k N False st
                                   else (Fin (- 1), st)) [1..k] NegInf st'
          = (fold (\<lambda>i b. max b (?g False i)) [1..k] NegInf,
             st'\<lparr>nodes := nodes st' + sum_list (map (?c False) [1..k])\<rparr>)" for st'
        by (rule max_loop_pure) (rule bmax)
      show ?thesis
        using False True by (simp add: Let_def minimax_tree.simps[of s] loop)
    next
      case pf: False
      have loop: "min_loop (\<lambda>i st. if s + i \<le> N then minimax_tree (s + i) k N True st
                                   else (Fin 1, st)) [1..k] PosInf st'
          = (fold (\<lambda>i b. min b (?g True i)) [1..k] PosInf,
             st'\<lparr>nodes := nodes st' + sum_list (map (?c True) [1..k])\<rparr>)" for st'
        by (rule min_loop_pure) (rule bmin)
      show ?thesis
        using False pf by (simp add: Let_def minimax_tree.simps[of s] loop)
    qed
  qed
qed

lemma minimax_tree_pure:
  "minimax_tree s k N p st = (mm_val s k N p, st\<lparr>nodes := nodes st + mm_cnt s k N p\<rparr>)"
  using minimax_tree_pure_aux[of s k N p st] by (simp add: mm_val_def mm_cnt_def)

lemma mm_terminal:
  "N \<le> s \<Longrightarrow> mm_val s k N p = (if p then Fin (- 1) else Fin 1)"
  "N \<le> s \<Longrightarrow> mm_cnt s k N p = 1"
  by (simp_all add: mm_val_def mm_cnt_def minimax_tree.simps Let_def)

lemma mm_max_node:
  assumes "s < N"
  shows "mm_val s k N True =
           fold (\<lambda>i b. max b (if s + i \<le> N then mm_val (s + i) k N False else Fin (- 1)))
             [1..k] NegInf"
    and "mm_cnt s k N True = 1 + sum_list (map (child_cnt s k N True) [1..k])"
proof -
  have body: "(if s + i \<le> N then minimax_tree (s + i) k N False st else (Fin (- 1), st))
      = (if s + i \<le> N then mm_val (s + i) k N False else Fin (- 1),
         st\<lparr>nodes := nodes st + child_cnt s k N True i\<rparr>)" for i st
    by (simp add: minimax_tree_pure child_cnt_def)
  have "minimax_tree s k N True \<lparr>nodes = 0\<rparr> =
      (fold (\<lambda>i b. max b (if s + i \<le> N then mm_val (s + i) k N False else Fin (- 1)))
             [1..k] NegInf, \<lparr>nodes = 1 + sum_list (map (child_cnt s k N True) [1..k])\<rparr>)"
    using assms by (simp add: Let_def minimax_tree.simps[of s] max_loop_pure[OF body])
  then show "mm_val s k N True =
           fold (\<lambda>i b. max b (if s + i \<le> N then mm_val (s + i) k N False else Fin (- 1)))
             [1..k] NegInf"
    and "mm_cnt s k N True = 1 + sum_list (map (child_cnt s k N True) [1..k])"
    by (simp_all add: mm_val_def mm_cnt_def)
qed

lemma mm_min_node:
  assumes "s < N"
  shows "mm_val s k N False =
           fold (\<lambda>i b. min b (if s + i \<le> N then mm_val (s + i) k N True else Fin 1))
             [1..k] PosInf"
    and "mm_cnt s k N False = 1 + sum_list (map (child_cnt s k N False) [1..k])"
proof -
  have body: "(if s + i \<le> N then minimax_tree (s + i) k N True st else (Fin 1, st))
      = (if s + i \<le> N then mm_val (s + i) k N True else Fin 1,
         st\<lparr>nodes := nodes st + child_cnt s k N False i\<rparr>)" for i st
    by (simp add: minimax_tree_pure child_cnt_def)
  have "minimax_tree s k N False \<lparr>nodes = 0\<rparr> =
      (fold (\<lambda>i b. min b (if s + i \<le> N then mm_val (s + i) k N True else Fin 1))
             [1..k] PosInf, \<lparr>nodes = 1 + sum_list (map (child_cnt s k N False) [1..k])\<rparr>)"
    using assms by (simp add: Let_def minimax_tree.simps[of s] min_loop_pure[OF body])
  then show "mm_val s k N False =
           fold (\<lambda>i b. min b (if s + i \<le> N then mm_val (s + i) k N True else Fin 1))
             [1..k] PosInf"
    and "mm_cnt s k N False = 1 + sum_list (map (child_cnt s k N False) [1..k])"
    by (simp_all add: mm_val_def mm_cnt_def)
qed

lemma fold_max_ge_init: "(b::pynum) \<le> fold (\<lambda>i b. max b (g i)) is b"
proof (induction "is" arbitrary: b)
  case Nil
  show ?case by simp
next
  case (Cons i "is")
  have "b \<le> max b (g i)" by simp
  also have "\<dots> \<le> fold (\<lambda>i b. max b (g i)) is (max b (g i))" by (rule Cons.IH)
  finally show ?case by simp
qed

lemma fold_max_ge_elem: "i \<in> set is \<Longrightarrow> g i \<le> fold (\<lambda>i b. max b (g i)) is (b::pynum)"
proof (induction "is" arbitrary: b)
  case Nil
  then show ?case by simp
next
  case (Cons j "is")
  show ?case
  proof (cases "i = j")
    case True
    have "g j \<le> max b (g j)" by simp
    also have "\<dots> \<le> fold (\<lambda>i b. max b (g i)) is (max b (g j))" by (rule fold_max_ge_init)
    finally show ?thesis using True by simp
  next
    case False
    with Cons.prems have "i \<in> set is" by simp
    from Cons.IH[OF this] show ?thesis by simp
  qed
qed

lemma fold_max_cases:
  "fold (\<lambda>i b. max b (g i)) is b = (b::pynum) \<or> (\<exists>i\<in>set is. fold (\<lambda>i b. max b (g i)) is b = g i)"
proof (induction "is" arbitrary: b)
  case Nil
  show ?case by simp
next
  case (Cons j "is")
  from Cons.IH[of "max b (g j)"] show ?case
    by (cases "b \<le> g j") (auto simp: max_def)
qed

lemma fold_min_le_init: "fold (\<lambda>i b. min b (g i)) is b \<le> (b::pynum)"
proof (induction "is" arbitrary: b)
  case Nil
  show ?case by simp
next
  case (Cons i "is")
  have "fold (\<lambda>i b. min b (g i)) is (min b (g i)) \<le> min b (g i)" by (rule Cons.IH)
  also have "\<dots> \<le> b" by simp
  finally show ?case by simp
qed

lemma fold_min_le_elem: "i \<in> set is \<Longrightarrow> fold (\<lambda>i b. min b (g i)) is (b::pynum) \<le> g i"
proof (induction "is" arbitrary: b)
  case Nil
  then show ?case by simp
next
  case (Cons j "is")
  show ?case
  proof (cases "i = j")
    case True
    have "fold (\<lambda>i b. min b (g i)) is (min b (g j)) \<le> min b (g j)" by (rule fold_min_le_init)
    also have "\<dots> \<le> g j" by simp
    finally show ?thesis using True by simp
  next
    case False
    with Cons.prems have "i \<in> set is" by simp
    from Cons.IH[OF this] show ?thesis by simp
  qed
qed

lemma fold_min_cases:
  "fold (\<lambda>i b. min b (g i)) is b = (b::pynum) \<or> (\<exists>i\<in>set is. fold (\<lambda>i b. min b (g i)) is b = g i)"
proof (induction "is" arbitrary: b)
  case Nil
  show ?case by simp
next
  case (Cons j "is")
  from Cons.IH[of "min b (g j)"] show ?case
    by (cases "b \<le> g j") (auto simp: min_def)
qed

lemma expected_cases: "expected k N s = Fin 1 \<or> expected k N s = Fin (- 1)"
  by (simp add: expected_def)

lemma mm_val_closed:
  assumes k: "1 \<le> k"
  shows "s \<le> N \<Longrightarrow> mm_val s k N p = (if p then expected k N s else - expected k N s)"
proof (induction "nat (N - s)" arbitrary: s p rule: less_induct)
  case less
  show ?case
  proof (cases "s = N")
    case True
    then show ?thesis by (simp add: mm_terminal expected_def)
  next
    case False
    with less.prems have sN: "s < N" by simp
    let ?r = "(N - s) mod (k + 1)"
    have r: "0 \<le> ?r" "?r \<le> k"
      using k pos_mod_sign[of "k + 1" "N - s"] pos_mod_bound[of "k + 1" "N - s"] by linarith+
    have one: "1 \<in> set [1..k]" using k by simp
    have IH: "mm_val (s + i) k N q = (if q then expected k N (s + i) else - expected k N (s + i))"
      if "1 \<le> i" "s + i \<le> N" for i q
      using that by (intro less) auto
    show ?thesis
    proof (cases p)
      case True
      let ?h = "\<lambda>i. if s + i \<le> N then mm_val (s + i) k N False else Fin (- 1)"
      let ?F = "fold (\<lambda>i b. max b (?h i)) [1..k] NegInf"
      have h: "?h i = (if ?r = i then Fin 1 else Fin (- 1))" if "1 \<le> i" "i \<le> k" for i
        using candidate_closed[OF k sN that] IH[OF that(1), of False] by auto
      have F: "mm_val s k N True = ?F" by (rule mm_max_node(1)[OF sN])
      have ge: "?h i \<le> ?F" if "1 \<le> i" "i \<le> k" for i
        using that by (intro fold_max_ge_elem) simp
      have "?h 1 \<le> ?F" using ge[of 1] k by simp
      moreover have "?h 1 \<noteq> NegInf" using h[of 1] k by auto
      ultimately have "?F \<noteq> NegInf" by (cases "?F"; cases "?h 1") auto
      with fold_max_cases[of ?h "[1..k]" NegInf]
      obtain i0 where i0: "1 \<le> i0" "i0 \<le> k" "?F = ?h i0" by auto
      show ?thesis
      proof (cases "?r = 0")
        case r0: True
        have "?h i0 = Fin (- 1)" using h[OF i0(1,2)] r0 i0(1) by auto
        with i0(3) F True r0 show ?thesis by (simp add: expected_def)
      next
        case r1: False
        with r have "1 \<le> ?r" by linarith
        from ge[OF this r(2)] h[OF this r(2)] have "Fin 1 \<le> ?F" by simp
        moreover have "?F = Fin 1 \<or> ?F = Fin (- 1)" using h[OF i0(1,2)] i0(3) by auto
        ultimately have "?F = Fin 1" by auto
        with F True r1 show ?thesis by (simp add: expected_def)
      qed
    next
      case pf: False
      let ?h = "\<lambda>i. if s + i \<le> N then mm_val (s + i) k N True else Fin 1"
      let ?F = "fold (\<lambda>i b. min b (?h i)) [1..k] PosInf"
      have h: "?h i = (if ?r = i then Fin (- 1) else Fin 1)" if "1 \<le> i" "i \<le> k" for i
      proof -
        have "?h i = - (if s + i > N then Fin (- 1) else - expected k N (s + i))"
          using IH[OF that(1), of True] expected_cases[of k N "s + i"] by auto
        then show ?thesis using candidate_closed[OF k sN that] by simp
      qed
      have F: "mm_val s k N False = ?F" by (rule mm_min_node(1)[OF sN])
      have le: "?F \<le> ?h i" if "1 \<le> i" "i \<le> k" for i
        using that by (intro fold_min_le_elem) simp
      have "?F \<le> ?h 1" using le[of 1] k by simp
      moreover have "?h 1 \<noteq> PosInf" using h[of 1] k by auto
      ultimately have "?F \<noteq> PosInf" by (cases "?F"; cases "?h 1") auto
      with fold_min_cases[of ?h "[1..k]" PosInf]
      obtain i0 where i0: "1 \<le> i0" "i0 \<le> k" "?F = ?h i0" by auto
      show ?thesis
      proof (cases "?r = 0")
        case r0: True
        have "?h i0 = Fin 1" using h[OF i0(1,2)] r0 i0(1) by auto
        with i0(3) F pf r0 show ?thesis by (simp add: expected_def)
      next
        case r1: False
        with r have "1 \<le> ?r" by linarith
        from le[OF this r(2)] h[OF this r(2)] have "?F \<le> Fin (- 1)" by simp
        moreover have "?F = Fin 1 \<or> ?F = Fin (- 1)" using h[OF i0(1,2)] i0(3) by auto
        ultimately have "?F = Fin (- 1)" by auto
        with F pf r1 show ?thesis by (simp add: expected_def)
      qed
    qed
  qed
qed

subsection \<open>Alpha-beta returns the minimax value\<close>

lemma ab_max_loop_sound:
  assumes body: "\<And>i a st. i \<in> set is \<Longrightarrow> a < beta \<Longrightarrow>
      (fst (body i a st) < beta \<longrightarrow> g i \<le> fst (body i a st)) \<and>
      (a < fst (body i a st) \<longrightarrow> fst (body i a st) \<le> g i)"
  shows "b \<le> a \<Longrightarrow> a < beta \<Longrightarrow>
     b \<le> fst (ab_max_loop body is b a beta st) \<and>
     (fst (ab_max_loop body is b a beta st) < beta \<longrightarrow>
        (\<forall>i\<in>set is. g i \<le> fst (ab_max_loop body is b a beta st))) \<and>
     (a < fst (ab_max_loop body is b a beta st) \<longrightarrow>
        (\<exists>i\<in>set is. fst (ab_max_loop body is b a beta st) \<le> g i))"
  using body
proof (induction "is" arbitrary: b a st)
  case Nil
  then show ?case by simp
next
  case (Cons i "is")
  obtain c st' where run: "body i a st = (c, st')" by (cases "body i a st")
  from Cons.prems(3)[of i a st] run Cons.prems(2)
  have c: "c < beta \<longrightarrow> g i \<le> c" "a < c \<longrightarrow> c \<le> g i" by auto
  define b' where "b' = max b c"
  define a' where "a' = max a b'"
  have ord: "b \<le> b'" "c \<le> b'" "b' \<le> a'" "a \<le> a'" "a' = a \<or> a' = c" "b' = b \<or> b' = c"
    using Cons.prems(1) by (auto simp: b'_def a'_def max_def)
  have step: "ab_max_loop body (i # is) b a beta st
                = (if beta \<le> a' then (b', st') else ab_max_loop body is b' a' beta st')"
    using run by (simp add: Let_def b'_def a'_def)
  show ?case
  proof (cases "beta \<le> a'")
    case True
    with ord(5) Cons.prems(2) have ac: "a' = c" by auto
    with True Cons.prems(2) have cb: "beta \<le> c" "a < c" by auto
    have bc: "b' = c"
    proof (rule ccontr)
      assume "b' \<noteq> c"
      with ord(6) have "b' = b" by simp
      with ord(2) have "c \<le> b" by simp
      with Cons.prems(1) cb(2) show False by order
    qed
    from cb(2) c(2) have "c \<le> g i" by simp
    moreover have "b \<le> c" using ord(1) bc by simp
    ultimately show ?thesis using step True bc cb(1) cb(2) by auto
  next
    case False
    then have lt: "a' < beta" by (simp only: not_le)
    let ?r = "fst (ab_max_loop body is b' a' beta st')"
    have IH: "b' \<le> ?r" "?r < beta \<longrightarrow> (\<forall>j\<in>set is. g j \<le> ?r)"
      "a' < ?r \<longrightarrow> (\<exists>j\<in>set is. ?r \<le> g j)"
      using Cons.IH[of b' a' st', OF ord(3) lt] Cons.prems(3) by auto
    have "c < beta" using ord(2,3) lt by order
    with c(1) have gi: "g i \<le> c" by simp
    have p1: "b \<le> ?r" using IH(1) ord(1) by order
    have cr: "g i \<le> ?r" using IH(1) ord(2) gi by order
    have p2: "?r < beta \<longrightarrow> (\<forall>j\<in>set (i # is). g j \<le> ?r)"
      using IH(2) cr by simp
    have p3: "a < ?r \<longrightarrow> (\<exists>j\<in>set (i # is). ?r \<le> g j)"
    proof
      assume ar: "a < ?r"
      show "\<exists>j\<in>set (i # is). ?r \<le> g j"
      proof (cases "a' < ?r")
        case True
        with IH(3) show ?thesis by auto
      next
        case False
        then have ra: "?r \<le> a'" by (simp only: not_less)
        with ar ord(5) have "a' = c" by auto
        with ra ar have "?r \<le> c" "a < c" by auto
        with c(2) have "?r \<le> g i" by auto
        then show ?thesis by simp
      qed
    qed
    show ?thesis using step False p1 p2 p3 by simp
  qed
qed

lemma ab_min_loop_sound:
  assumes body: "\<And>i bt st. i \<in> set is \<Longrightarrow> alpha < bt \<Longrightarrow>
      (fst (body i bt st) < bt \<longrightarrow> g i \<le> fst (body i bt st)) \<and>
      (alpha < fst (body i bt st) \<longrightarrow> fst (body i bt st) \<le> g i)"
  shows "bt \<le> b \<Longrightarrow> alpha < bt \<Longrightarrow>
     fst (ab_min_loop body is b alpha bt st) \<le> b \<and>
     (alpha < fst (ab_min_loop body is b alpha bt st) \<longrightarrow>
        (\<forall>i\<in>set is. fst (ab_min_loop body is b alpha bt st) \<le> g i)) \<and>
     (fst (ab_min_loop body is b alpha bt st) < bt \<longrightarrow>
        (\<exists>i\<in>set is. g i \<le> fst (ab_min_loop body is b alpha bt st)))"
  using body
proof (induction "is" arbitrary: b bt st)
  case Nil
  then show ?case by simp
next
  case (Cons i "is")
  obtain c st' where run: "body i bt st = (c, st')" by (cases "body i bt st")
  from Cons.prems(3)[of i bt st] run Cons.prems(2)
  have c: "c < bt \<longrightarrow> g i \<le> c" "alpha < c \<longrightarrow> c \<le> g i" by auto
  define b' where "b' = min b c"
  define bt' where "bt' = min bt b'"
  have ord: "b' \<le> b" "b' \<le> c" "bt' \<le> b'" "bt' \<le> bt" "bt' = bt \<or> bt' = c" "b' = b \<or> b' = c"
    using Cons.prems(1) by (auto simp: b'_def bt'_def min_def)
  have step: "ab_min_loop body (i # is) b alpha bt st
                = (if bt' \<le> alpha then (b', st') else ab_min_loop body is b' alpha bt' st')"
    using run by (simp add: Let_def b'_def bt'_def)
  show ?case
  proof (cases "bt' \<le> alpha")
    case True
    with ord(5) Cons.prems(2) have ac: "bt' = c" by auto
    with True Cons.prems(2) have cb: "c \<le> alpha" "c < bt" by auto
    have bc: "b' = c"
    proof (rule ccontr)
      assume "b' \<noteq> c"
      with ord(6) have "b' = b" by simp
      with ord(2) have "b \<le> c" by simp
      with Cons.prems(1) cb(2) show False by order
    qed
    from cb(2) c(1) have "g i \<le> c" by simp
    moreover have "c \<le> b" using ord(1) bc by simp
    ultimately show ?thesis using step True bc cb(1) cb(2) by auto
  next
    case False
    then have lt: "alpha < bt'" by (simp only: not_le)
    let ?r = "fst (ab_min_loop body is b' alpha bt' st')"
    have IH: "?r \<le> b'" "alpha < ?r \<longrightarrow> (\<forall>j\<in>set is. ?r \<le> g j)"
      "?r < bt' \<longrightarrow> (\<exists>j\<in>set is. g j \<le> ?r)"
      using Cons.IH[of bt' b' st', OF ord(3) lt] Cons.prems(3) by auto
    have "alpha < c" using ord(2,3) lt by order
    with c(2) have gi: "c \<le> g i" by simp
    have p1: "?r \<le> b" using IH(1) ord(1) by order
    have cr: "?r \<le> g i" using IH(1) ord(2) gi by order
    have p2: "alpha < ?r \<longrightarrow> (\<forall>j\<in>set (i # is). ?r \<le> g j)"
      using IH(2) cr by simp
    have p3: "?r < bt \<longrightarrow> (\<exists>j\<in>set (i # is). g j \<le> ?r)"
    proof
      assume ar: "?r < bt"
      show "\<exists>j\<in>set (i # is). g j \<le> ?r"
      proof (cases "?r < bt'")
        case True
        with IH(3) show ?thesis by auto
      next
        case False
        then have ra: "bt' \<le> ?r" by (simp only: not_less)
        with ar ord(5) have "bt' = c" by auto
        with ra ar have "c \<le> ?r" "c < bt" by auto
        with c(1) have "g i \<le> ?r" by auto
        then show ?thesis by simp
      qed
    qed
    show ?thesis using step False p1 p2 p3 by simp
  qed
qed

lemma ab_sound:
  "alpha < beta \<Longrightarrow>
   (fst (minimax_ab_tree s k N p alpha beta st) < beta \<longrightarrow>
      mm_val s k N p \<le> fst (minimax_ab_tree s k N p alpha beta st)) \<and>
   (alpha < fst (minimax_ab_tree s k N p alpha beta st) \<longrightarrow>
      fst (minimax_ab_tree s k N p alpha beta st) \<le> mm_val s k N p)"
proof (induction "nat (N - s)" arbitrary: s p alpha beta st rule: less_induct)
  case less
  show ?case
  proof (cases "N \<le> s")
    case True
    then show ?thesis by (simp add: minimax_ab_tree.simps mm_terminal Let_def)
  next
    case False
    then have sN: "s < N" by simp
    let ?st = "st\<lparr>nodes := nodes st + 1\<rparr>"
    show ?thesis
    proof (cases p)
      case True
      let ?body = "\<lambda>i a st. if s + i > N then (Fin (- 1), st)
                             else minimax_ab_tree (s + i) k N False a beta st"
      let ?g = "\<lambda>i. if s + i \<le> N then mm_val (s + i) k N False else Fin (- 1)"
      let ?r = "fst (ab_max_loop ?body [1..k] NegInf alpha beta ?st)"
      have body: "(fst (?body i a st') < beta \<longrightarrow> ?g i \<le> fst (?body i a st')) \<and>
          (a < fst (?body i a st') \<longrightarrow> fst (?body i a st') \<le> ?g i)"
        if "i \<in> set [1..k]" "a < beta" for i a st'
      proof (cases "s + i > N")
        case True
        then show ?thesis by simp
      next
        case F: False
        with that sN have "nat (N - (s + i)) < nat (N - s)" by auto
        from less(1)[OF this that(2), of False st'] F show ?thesis by simp
      qed
      have ab: "fst (minimax_ab_tree s k N p alpha beta st) = ?r"
        using sN True by (simp add: minimax_ab_tree.simps[of s] Let_def)
      have M: "mm_val s k N p = fold (\<lambda>i b. max b (?g i)) [1..k] NegInf"
        using mm_max_node(1)[OF sN] True by simp
      from ab_max_loop_sound[of "[1..k]" beta ?body ?g NegInf alpha ?st, OF body] less.prems
      have r: "?r < beta \<longrightarrow> (\<forall>i\<in>set [1..k]. ?g i \<le> ?r)"
        "alpha < ?r \<longrightarrow> (\<exists>i\<in>set [1..k]. ?r \<le> ?g i)" by auto
      have "mm_val s k N p \<le> ?r" if "?r < beta"
        using fold_max_cases[of ?g "[1..k]" NegInf] r(1) that unfolding M by auto
      moreover have "?r \<le> mm_val s k N p" if "alpha < ?r"
      proof -
        from r(2) that obtain i where i: "i \<in> set [1..k]" "?r \<le> ?g i" by blast
        from fold_max_ge_elem[OF i(1), of ?g NegInf] i(2) show ?thesis unfolding M by simp
      qed
      ultimately show ?thesis unfolding ab by blast
    next
      case pf: False
      let ?body = "\<lambda>i b st. if s + i > N then (Fin 1, st)
                             else minimax_ab_tree (s + i) k N True alpha b st"
      let ?g = "\<lambda>i. if s + i \<le> N then mm_val (s + i) k N True else Fin 1"
      let ?r = "fst (ab_min_loop ?body [1..k] PosInf alpha beta ?st)"
      have body: "(fst (?body i bt st') < bt \<longrightarrow> ?g i \<le> fst (?body i bt st')) \<and>
          (alpha < fst (?body i bt st') \<longrightarrow> fst (?body i bt st') \<le> ?g i)"
        if "i \<in> set [1..k]" "alpha < bt" for i bt st'
      proof (cases "s + i > N")
        case True
        then show ?thesis by simp
      next
        case F: False
        with that sN have "nat (N - (s + i)) < nat (N - s)" by auto
        from less(1)[OF this that(2), of True st'] F show ?thesis by simp
      qed
      have ab: "fst (minimax_ab_tree s k N p alpha beta st) = ?r"
        using sN pf by (simp add: minimax_ab_tree.simps[of s] Let_def)
      have M: "mm_val s k N p = fold (\<lambda>i b. min b (?g i)) [1..k] PosInf"
        using mm_min_node(1)[OF sN] pf by simp
      have top: "beta \<le> PosInf" by (cases beta) simp_all
      from ab_min_loop_sound[of "[1..k]" alpha ?body ?g beta PosInf ?st, OF body top] less.prems
      have r: "alpha < ?r \<longrightarrow> (\<forall>i\<in>set [1..k]. ?r \<le> ?g i)"
        "?r < beta \<longrightarrow> (\<exists>i\<in>set [1..k]. ?g i \<le> ?r)" by auto
      have "?r \<le> mm_val s k N p" if "alpha < ?r"
        using fold_min_cases[of ?g "[1..k]" PosInf] r(1) that top unfolding M
        by (cases ?r) auto
      moreover have "mm_val s k N p \<le> ?r" if "?r < beta"
      proof -
        from r(2) that obtain i where i: "i \<in> set [1..k]" "?g i \<le> ?r" by blast
        from fold_min_le_elem[OF i(1), of ?g PosInf] i(2) show ?thesis unfolding M by simp
      qed
      ultimately show ?thesis unfolding ab by blast
    qed
  qed
qed

lemma ab_full_window:
  "fst (minimax_ab_tree s k N p NegInf PosInf st) = mm_val s k N p"
proof -
  let ?v = "fst (minimax_ab_tree s k N p NegInf PosInf st)"
  have lt: "NegInf < PosInf" by (simp add: less_pynum_def)
  from ab_sound[OF lt, of s k N p st]
  have a: "?v < PosInf \<longrightarrow> mm_val s k N p \<le> ?v" and b: "NegInf < ?v \<longrightarrow> ?v \<le> mm_val s k N p"
    by auto
  show ?thesis
  proof (cases ?v)
    case NegInf
    with a have "mm_val s k N p \<le> NegInf" by (simp add: less_pynum_def)
    then show ?thesis using NegInf by (cases "mm_val s k N p") simp_all
  next
    case (Fin x)
    with a b have "mm_val s k N p \<le> Fin x" "Fin x \<le> mm_val s k N p"
      by (simp_all add: less_pynum_def)
    then show ?thesis using Fin by simp
  next
    case PosInf
    with b have "PosInf \<le> mm_val s k N p" by (simp add: less_pynum_def)
    then show ?thesis using PosInf by (cases "mm_val s k N p") simp_all
  qed
qed

subsection \<open>Alpha-beta visits no more nodes\<close>

lemma mm_cnt_pos: "1 \<le> mm_cnt s k N p"
proof (induction "nat (N - s)" arbitrary: s p rule: less_induct)
  case less
  show ?case
  proof (cases "N \<le> s")
    case True
    then show ?thesis by (simp add: mm_terminal)
  next
    case False
    then have sN: "s < N" by simp
    have "0 \<le> child_cnt s k N p i" if "i \<in> set [1..k]" for i
    proof (cases "s + i \<le> N")
      case True
      with that sN have "nat (N - (s + i)) < nat (N - s)" by auto
      from less[OF this, of "\<not> p"] True show ?thesis by (simp add: child_cnt_def)
    next
      case False
      then show ?thesis by (simp add: child_cnt_def)
    qed
    then have "0 \<le> sum_list (map (child_cnt s k N p) [1..k])"
      by (intro sum_list_nonneg) auto
    then show ?thesis
      using mm_max_node(2)[OF sN, of k] mm_min_node(2)[OF sN, of k] by (cases p) simp_all
  qed
qed

lemma child_cnt_nonneg: "0 \<le> child_cnt s k N p i"
  using mm_cnt_pos[of "s + i" k N "\<not> p"] by (simp add: child_cnt_def)

lemma mm_cnt_node:
  "s < N \<Longrightarrow> mm_cnt s k N p = 1 + sum_list (map (child_cnt s k N p) [1..k])"
  using mm_max_node(2)[of s N k] mm_min_node(2)[of s N k] by (cases p) simp_all

lemma ab_max_loop_count:
  assumes "\<And>i a st. i \<in> set is \<Longrightarrow> nodes (snd (body i a st)) \<le> nodes st + c i"
    and "\<And>i. i \<in> set is \<Longrightarrow> 0 \<le> c i"
  shows "nodes (snd (ab_max_loop body is b a beta st)) \<le> nodes st + sum_list (map c is)"
  using assms
proof (induction "is" arbitrary: b a st)
  case Nil
  show ?case by simp
next
  case (Cons i "is")
  obtain v st' where run: "body i a st = (v, st')" by (cases "body i a st")
  from Cons.prems(1)[of i a st] run have st': "nodes st' \<le> nodes st + c i" by simp
  have rest: "0 \<le> sum_list (map c is)" using Cons.prems(2) by (intro sum_list_nonneg) auto
  show ?case
  proof (cases "beta \<le> max a (max b v)")
    case True
    then show ?thesis using run st' rest by (simp add: Let_def)
  next
    case False
    have "nodes (snd (ab_max_loop body is (max b v) (max a (max b v)) beta st'))
            \<le> nodes st' + sum_list (map c is)"
      using Cons.prems by (intro Cons.IH) auto
    then show ?thesis using run st' False by (simp add: Let_def)
  qed
qed

lemma ab_min_loop_count:
  assumes "\<And>i bt st. i \<in> set is \<Longrightarrow> nodes (snd (body i bt st)) \<le> nodes st + c i"
    and "\<And>i. i \<in> set is \<Longrightarrow> 0 \<le> c i"
  shows "nodes (snd (ab_min_loop body is b alpha bt st)) \<le> nodes st + sum_list (map c is)"
  using assms
proof (induction "is" arbitrary: b bt st)
  case Nil
  show ?case by simp
next
  case (Cons i "is")
  obtain v st' where run: "body i bt st = (v, st')" by (cases "body i bt st")
  from Cons.prems(1)[of i bt st] run have st': "nodes st' \<le> nodes st + c i" by simp
  have rest: "0 \<le> sum_list (map c is)" using Cons.prems(2) by (intro sum_list_nonneg) auto
  show ?case
  proof (cases "min bt (min b v) \<le> alpha")
    case True
    then show ?thesis using run st' rest by (simp add: Let_def)
  next
    case False
    have "nodes (snd (ab_min_loop body is (min b v) alpha (min bt (min b v)) st'))
            \<le> nodes st' + sum_list (map c is)"
      using Cons.prems by (intro Cons.IH) auto
    then show ?thesis using run st' False by (simp add: Let_def)
  qed
qed

lemma ab_count_le:
  "nodes (snd (minimax_ab_tree s k N p alpha beta st)) \<le> nodes st + mm_cnt s k N p"
proof (induction "nat (N - s)" arbitrary: s p alpha beta st rule: less_induct)
  case less
  show ?case
  proof (cases "N \<le> s")
    case True
    then show ?thesis by (simp add: minimax_ab_tree.simps mm_terminal Let_def)
  next
    case False
    then have sN: "s < N" by simp
    let ?st = "st\<lparr>nodes := nodes st + 1\<rparr>"
    show ?thesis
    proof (cases p)
      case True
      let ?body = "\<lambda>i a st. if s + i > N then (Fin (- 1), st)
                             else minimax_ab_tree (s + i) k N False a beta st"
      have body: "nodes (snd (?body i a st')) \<le> nodes st' + child_cnt s k N True i"
        if "i \<in> set [1..k]" for i a st'
      proof (cases "s + i > N")
        case True
        then show ?thesis by (simp add: child_cnt_def)
      next
        case F: False
        with that sN have "nat (N - (s + i)) < nat (N - s)" by auto
        from less[OF this, of False a beta st'] F show ?thesis by (simp add: child_cnt_def)
      qed
      have "nodes (snd (ab_max_loop ?body [1..k] NegInf alpha beta ?st))
              \<le> nodes ?st + sum_list (map (child_cnt s k N True) [1..k])"
        by (rule ab_max_loop_count[OF body child_cnt_nonneg])
      then show ?thesis
        using sN True mm_cnt_node[OF sN, of k True]
        by (simp add: minimax_ab_tree.simps[of s] Let_def)
    next
      case pf: False
      let ?body = "\<lambda>i b st. if s + i > N then (Fin 1, st)
                             else minimax_ab_tree (s + i) k N True alpha b st"
      have body: "nodes (snd (?body i bt st')) \<le> nodes st' + child_cnt s k N False i"
        if "i \<in> set [1..k]" for i bt st'
      proof (cases "s + i > N")
        case True
        then show ?thesis by (simp add: child_cnt_def)
      next
        case F: False
        with that sN have "nat (N - (s + i)) < nat (N - s)" by auto
        from less[OF this, of True alpha bt st'] F show ?thesis by (simp add: child_cnt_def)
      qed
      have "nodes (snd (ab_min_loop ?body [1..k] PosInf alpha beta ?st))
              \<le> nodes ?st + sum_list (map (child_cnt s k N False) [1..k])"
        by (rule ab_min_loop_count[OF body child_cnt_nonneg])
      then show ?thesis
        using sN pf mm_cnt_node[OF sN, of k False]
        by (simp add: minimax_ab_tree.simps[of s] Let_def)
    qed
  qed
qed

lemma ab_max_loop_range:
  assumes "\<And>i a st. i \<in> set is \<Longrightarrow> fst (body i a st) = Fin 1 \<or> fst (body i a st) = Fin (- 1)"
    and "(b = NegInf \<and> is \<noteq> []) \<or> b = Fin 1 \<or> b = Fin (- 1)"
  shows "fst (ab_max_loop body is b a beta st) = Fin 1 \<or>
         fst (ab_max_loop body is b a beta st) = Fin (- 1)"
  using assms
proof (induction "is" arbitrary: b a st)
  case Nil
  then show ?case by simp
next
  case (Cons i "is")
  obtain v st' where run: "body i a st = (v, st')" by (cases "body i a st")
  from Cons.prems(1)[of i a st] run have v: "v = Fin 1 \<or> v = Fin (- 1)" by simp
  with Cons.prems(2) have b': "max b v = Fin 1 \<or> max b v = Fin (- 1)"
    by (auto simp: max_def)
  show ?case
  proof (cases "beta \<le> max a (max b v)")
    case True
    then show ?thesis using run b' by (simp add: Let_def)
  next
    case False
    have "fst (ab_max_loop body is (max b v) (max a (max b v)) beta st') = Fin 1 \<or>
          fst (ab_max_loop body is (max b v) (max a (max b v)) beta st') = Fin (- 1)"
      using Cons.prems(1) b' by (intro Cons.IH) auto
    then show ?thesis using run False by (simp add: Let_def)
  qed
qed

lemma ab_min_loop_range:
  assumes "\<And>i bt st. i \<in> set is \<Longrightarrow> fst (body i bt st) = Fin 1 \<or> fst (body i bt st) = Fin (- 1)"
    and "(b = PosInf \<and> is \<noteq> []) \<or> b = Fin 1 \<or> b = Fin (- 1)"
  shows "fst (ab_min_loop body is b alpha bt st) = Fin 1 \<or>
         fst (ab_min_loop body is b alpha bt st) = Fin (- 1)"
  using assms
proof (induction "is" arbitrary: b bt st)
  case Nil
  then show ?case by simp
next
  case (Cons i "is")
  obtain v st' where run: "body i bt st = (v, st')" by (cases "body i bt st")
  from Cons.prems(1)[of i bt st] run have v: "v = Fin 1 \<or> v = Fin (- 1)" by simp
  with Cons.prems(2) have b': "min b v = Fin 1 \<or> min b v = Fin (- 1)"
    by (auto simp: min_def)
  show ?case
  proof (cases "min bt (min b v) \<le> alpha")
    case True
    then show ?thesis using run b' by (simp add: Let_def)
  next
    case False
    have "fst (ab_min_loop body is (min b v) alpha (min bt (min b v)) st') = Fin 1 \<or>
          fst (ab_min_loop body is (min b v) alpha (min bt (min b v)) st') = Fin (- 1)"
      using Cons.prems(1) b' by (intro Cons.IH) auto
    then show ?thesis using run False by (simp add: Let_def)
  qed
qed

lemma ab_val_range:
  assumes k: "1 \<le> k"
  shows "fst (minimax_ab_tree s k N p alpha beta st) = Fin 1 \<or>
         fst (minimax_ab_tree s k N p alpha beta st) = Fin (- 1)"
proof (induction "nat (N - s)" arbitrary: s p alpha beta st rule: less_induct)
  case less
  show ?case
  proof (cases "N \<le> s")
    case True
    then show ?thesis by (simp add: minimax_ab_tree.simps Let_def)
  next
    case False
    then have sN: "s < N" by simp
    have ne: "[1..k] \<noteq> []" using k by simp
    let ?st = "st\<lparr>nodes := nodes st + 1\<rparr>"
    show ?thesis
    proof (cases p)
      case True
      let ?body = "\<lambda>i a st. if s + i > N then (Fin (- 1), st)
                             else minimax_ab_tree (s + i) k N False a beta st"
      have body: "fst (?body i a st') = Fin 1 \<or> fst (?body i a st') = Fin (- 1)"
        if "i \<in> set [1..k]" for i a st'
      proof (cases "s + i > N")
        case True
        then show ?thesis by simp
      next
        case F: False
        with that sN have "nat (N - (s + i)) < nat (N - s)" by auto
        from less[OF this, of False a beta st'] F show ?thesis by simp
      qed
      have "fst (ab_max_loop ?body [1..k] NegInf alpha beta ?st) = Fin 1 \<or>
            fst (ab_max_loop ?body [1..k] NegInf alpha beta ?st) = Fin (- 1)"
        using ne by (intro ab_max_loop_range body) auto
      then show ?thesis using sN True by (simp add: minimax_ab_tree.simps[of s] Let_def)
    next
      case pf: False
      let ?body = "\<lambda>i b st. if s + i > N then (Fin 1, st)
                             else minimax_ab_tree (s + i) k N True alpha b st"
      have body: "fst (?body i bt st') = Fin 1 \<or> fst (?body i bt st') = Fin (- 1)"
        if "i \<in> set [1..k]" for i bt st'
      proof (cases "s + i > N")
        case True
        then show ?thesis by simp
      next
        case F: False
        with that sN have "nat (N - (s + i)) < nat (N - s)" by auto
        from less[OF this, of True alpha bt st'] F show ?thesis by simp
      qed
      have "fst (ab_min_loop ?body [1..k] PosInf alpha beta ?st) = Fin 1 \<or>
            fst (ab_min_loop ?body [1..k] PosInf alpha beta ?st) = Fin (- 1)"
        using ne by (intro ab_min_loop_range body) auto
      then show ?thesis using sN pf by (simp add: minimax_ab_tree.simps[of s] Let_def)
    qed
  qed
qed

lemma ab_max_loop_count_head:
  assumes head: "nodes (snd (body i a st)) < nodes st + c i"
    and rest: "\<And>j a st. j \<in> set is \<Longrightarrow> nodes (snd (body j a st)) \<le> nodes st + c j"
    and nonneg: "\<And>j. j \<in> set is \<Longrightarrow> 0 \<le> c j"
  shows "nodes (snd (ab_max_loop body (i # is) b a beta st)) < nodes st + sum_list (map c (i # is))"
proof -
  obtain v st' where run: "body i a st = (v, st')" by (cases "body i a st")
  from head run have st': "nodes st' < nodes st + c i" by simp
  have sum: "0 \<le> sum_list (map c is)" using nonneg by (intro sum_list_nonneg) auto
  show ?thesis
  proof (cases "beta \<le> max a (max b v)")
    case True
    then show ?thesis using run st' sum by (simp add: Let_def)
  next
    case False
    have "nodes (snd (ab_max_loop body is (max b v) (max a (max b v)) beta st'))
            \<le> nodes st' + sum_list (map c is)"
      by (rule ab_max_loop_count[OF rest nonneg])
    then show ?thesis using run st' False by (simp add: Let_def)
  qed
qed

lemma ab_min_loop_count_head:
  assumes head: "nodes (snd (body i bt st)) < nodes st + c i"
    and rest: "\<And>j bt st. j \<in> set is \<Longrightarrow> nodes (snd (body j bt st)) \<le> nodes st + c j"
    and nonneg: "\<And>j. j \<in> set is \<Longrightarrow> 0 \<le> c j"
  shows "nodes (snd (ab_min_loop body (i # is) b alpha bt st)) < nodes st + sum_list (map c (i # is))"
proof -
  obtain v st' where run: "body i bt st = (v, st')" by (cases "body i bt st")
  from head run have st': "nodes st' < nodes st + c i" by simp
  have sum: "0 \<le> sum_list (map c is)" using nonneg by (intro sum_list_nonneg) auto
  show ?thesis
  proof (cases "min bt (min b v) \<le> alpha")
    case True
    then show ?thesis using run st' sum by (simp add: Let_def)
  next
    case False
    have "nodes (snd (ab_min_loop body is (min b v) alpha (min bt (min b v)) st'))
            \<le> nodes st' + sum_list (map c is)"
      by (rule ab_min_loop_count[OF rest nonneg])
    then show ?thesis using run st' False by (simp add: Let_def)
  qed
qed

lemma ab_body_count:
  "nodes (snd (if s + i > N then (v, st)
               else minimax_ab_tree (s + i) k N (\<not> p) alpha beta st))
     \<le> nodes st + child_cnt s k N p i"
  using ab_count_le[of "s + i" k N "\<not> p" alpha beta st] by (simp add: child_cnt_def)

subsection \<open>A cutoff that saves a node\<close>

text \<open>
  For \<open>k \<ge> 2\<close> and \<open>N \<ge> k + 2\<close> the leftmost path reaches \<open>s = N - k - 2\<close> with the full
  window. Its first child, at \<open>N - (k + 1)\<close>, is lost for the mover there, so the second
  child, at \<open>N - k\<close>, is searched with a window that its first move already closes: the
  loop breaks and skips the move to \<open>N - k + 2\<close>, which the plain search visits.
\<close>

lemma PosInf_top: "x \<le> PosInf"
  by (cases x) simp_all

lemma NegInf_bot: "NegInf \<le> x"
  by simp

lemma upto_two: "2 \<le> k \<Longrightarrow> [1..k] = 1 # 2 # [3..k]"
  by (simp add: upto_rec1[of 1 k] upto_rec1[of 2 k])

lemma upto_one: "1 \<le> k \<Longrightarrow> [1..k] = 1 # [2..k]"
  by (simp add: upto_rec1[of 1 k])

lemma mm_cnt_two_children:
  assumes k: "2 \<le> k" and s: "s + 2 \<le> N"
  shows "mm_cnt s k N p = 1 + mm_cnt (s + 1) k N (\<not> p) + mm_cnt (s + 2) k N (\<not> p)
           + sum_list (map (child_cnt s k N p) [3..k])"
proof -
  have "s < N" using s by simp
  from mm_cnt_node[OF this, of k p] show ?thesis
    using s by (simp add: upto_two[OF k] child_cnt_def)
qed

lemma ab_cut_min:
  assumes k: "2 \<le> k" and s: "s + 2 \<le> N" and a: "Fin 1 \<le> alpha"
  shows "nodes (snd (minimax_ab_tree s k N False alpha beta st)) < nodes st + mm_cnt s k N False"
proof -
  let ?st = "st\<lparr>nodes := nodes st + 1\<rparr>"
  obtain v st2 where run: "minimax_ab_tree (s + 1) k N True alpha beta ?st = (v, st2)"
    by (cases "minimax_ab_tree (s + 1) k N True alpha beta ?st")
  have "v = Fin 1 \<or> v = Fin (- 1)"
    using ab_val_range[of k "s + 1" N True alpha beta ?st] run k by simp
  then have "v \<le> Fin 1" by auto
  with a have va: "v \<le> alpha" by order
  have mv: "min PosInf v = v" by (simp add: min_absorb2 PosInf_top)
  have "min beta v \<le> v" by simp
  with va have "min beta v \<le> alpha" by order
  with mv have cut: "min beta (min PosInf v) \<le> alpha" by simp
  have res: "minimax_ab_tree s k N False alpha beta st = (v, st2)"
    using s run cut mv by (simp add: minimax_ab_tree.simps[of s] Let_def upto_two[OF k])
  have "nodes st2 \<le> nodes ?st + mm_cnt (s + 1) k N True"
    using ab_count_le[of "s + 1" k N True alpha beta ?st] run by simp
  moreover have "1 \<le> mm_cnt (s + 2) k N True" by (rule mm_cnt_pos)
  moreover have "0 \<le> sum_list (map (child_cnt s k N False) [3..k])"
    by (intro sum_list_nonneg) (auto simp: child_cnt_nonneg)
  ultimately show ?thesis
    using mm_cnt_two_children[OF k s, of False] res by simp
qed

lemma ab_cut_max:
  assumes k: "2 \<le> k" and s: "s + 2 \<le> N" and b: "beta \<le> Fin (- 1)"
  shows "nodes (snd (minimax_ab_tree s k N True alpha beta st)) < nodes st + mm_cnt s k N True"
proof -
  let ?st = "st\<lparr>nodes := nodes st + 1\<rparr>"
  obtain v st2 where run: "minimax_ab_tree (s + 1) k N False alpha beta ?st = (v, st2)"
    by (cases "minimax_ab_tree (s + 1) k N False alpha beta ?st")
  have "v = Fin 1 \<or> v = Fin (- 1)"
    using ab_val_range[of k "s + 1" N False alpha beta ?st] run k by simp
  then have "Fin (- 1) \<le> v" by auto
  with b have vb: "beta \<le> v" by order
  have mv: "max NegInf v = v" by (simp add: max_absorb2)
  have "v \<le> max alpha v" by simp
  with vb have "beta \<le> max alpha v" by order
  with mv have cut: "beta \<le> max alpha (max NegInf v)" by simp
  have res: "minimax_ab_tree s k N True alpha beta st = (v, st2)"
    using s run cut mv by (simp add: minimax_ab_tree.simps[of s] Let_def upto_two[OF k])
  have "nodes st2 \<le> nodes ?st + mm_cnt (s + 1) k N False"
    using ab_count_le[of "s + 1" k N False alpha beta ?st] run by simp
  moreover have "1 \<le> mm_cnt (s + 2) k N False" by (rule mm_cnt_pos)
  moreover have "0 \<le> sum_list (map (child_cnt s k N True) [3..k])"
    by (intro sum_list_nonneg) (auto simp: child_cnt_nonneg)
  ultimately show ?thesis
    using mm_cnt_two_children[OF k s, of True] res by simp
qed

lemma ab_strict_base:
  assumes k: "2 \<le> k" and s: "s = N - k - 2"
  shows "nodes (snd (minimax_ab_tree s k N p NegInf PosInf st)) < nodes st + mm_cnt s k N p"
proof -
  let ?st = "st\<lparr>nodes := nodes st + 1\<rparr>"
  have k1: "1 \<le> k" using k by simp
  have s2: "s + 2 \<le> N" "s + 1 \<le> N" "s + 2 + 2 \<le> N" using k s by simp_all
  have "(N - (s + 1)) mod (k + 1) = 0" using s by simp
  then have e: "expected k N (s + 1) = Fin (- 1)" by (simp add: expected_def)
  obtain v st2 where run: "minimax_ab_tree (s + 1) k N (\<not> p) NegInf PosInf ?st = (v, st2)"
    by (cases "minimax_ab_tree (s + 1) k N (\<not> p) NegInf PosInf ?st")
  have "v = mm_val (s + 1) k N (\<not> p)"
    using ab_full_window[of "s + 1" k N "\<not> p" ?st] run by simp
  then have v: "v = (if p then Fin 1 else Fin (- 1))"
    using mm_val_closed[OF k1 s2(2), of "\<not> p"] e by simp
  have st2: "nodes st2 \<le> nodes st + 1 + mm_cnt (s + 1) k N (\<not> p)"
    using ab_count_le[of "s + 1" k N "\<not> p" NegInf PosInf ?st] run by simp
  have cnt: "mm_cnt s k N p = 1 + mm_cnt (s + 1) k N (\<not> p)
           + sum_list (map (child_cnt s k N p) (2 # [3..k]))"
    using mm_cnt_two_children[OF k s2(1), of p] s2(1) by (simp add: child_cnt_def)
  show ?thesis
  proof (cases p)
    case True
    let ?body = "\<lambda>i a st. if s + i > N then (Fin (- 1), st)
                           else minimax_ab_tree (s + i) k N False a PosInf st"
    have unfold: "minimax_ab_tree s k N True NegInf PosInf st
        = ab_max_loop ?body (2 # [3..k]) (Fin 1) (Fin 1) PosInf st2"
      using s2 run v True
      by (simp add: minimax_ab_tree.simps[of s] Let_def upto_two[OF k] max_def)
    have head: "nodes (snd (?body 2 (Fin 1) st2)) < nodes st2 + child_cnt s k N True 2"
      using ab_cut_min[OF k s2(3), of "Fin 1" PosInf st2] s2(1) by (simp add: child_cnt_def)
    have rest: "nodes (snd (?body j a st')) \<le> nodes st' + child_cnt s k N True j" for j a st'
      using ab_body_count[where s = s and i = j and N = N and v = "Fin (- 1)" and st = st'
          and k = k and p = True and alpha = a and beta = PosInf]
      by (simp split: if_splits)
    have "nodes (snd (ab_max_loop ?body (2 # [3..k]) (Fin 1) (Fin 1) PosInf st2))
            < nodes st2 + sum_list (map (child_cnt s k N True) (2 # [3..k]))"
      by (rule ab_max_loop_count_head[where body = ?body and c = "child_cnt s k N True",
            OF head rest child_cnt_nonneg])
    then show ?thesis using unfold st2 cnt True by simp
  next
    case False
    let ?body = "\<lambda>i b st. if s + i > N then (Fin 1, st)
                           else minimax_ab_tree (s + i) k N True NegInf b st"
    have unfold: "minimax_ab_tree s k N False NegInf PosInf st
        = ab_min_loop ?body (2 # [3..k]) (Fin (- 1)) NegInf (Fin (- 1)) st2"
      using s2 run v False
      by (simp add: minimax_ab_tree.simps[of s] Let_def upto_two[OF k] min_def)
    have head: "nodes (snd (?body 2 (Fin (- 1)) st2)) < nodes st2 + child_cnt s k N False 2"
      using ab_cut_max[OF k s2(3), of "Fin (- 1)" NegInf st2] s2(1) by (simp add: child_cnt_def)
    have rest: "nodes (snd (?body j b st')) \<le> nodes st' + child_cnt s k N False j" for j b st'
      using ab_body_count[where s = s and i = j and N = N and v = "Fin 1" and st = st'
          and k = k and p = False and alpha = NegInf and beta = b]
      by (simp split: if_splits)
    have "nodes (snd (ab_min_loop ?body (2 # [3..k]) (Fin (- 1)) NegInf (Fin (- 1)) st2))
            < nodes st2 + sum_list (map (child_cnt s k N False) (2 # [3..k]))"
      by (rule ab_min_loop_count_head[where body = ?body and c = "child_cnt s k N False",
            OF head rest child_cnt_nonneg])
    then show ?thesis using unfold st2 cnt False by simp
  qed
qed

lemma ab_strict_descent:
  assumes k: "1 \<le> k" and sN: "s < N"
    and child: "\<And>st. nodes (snd (minimax_ab_tree (s + 1) k N (\<not> p) NegInf PosInf st))
                   < nodes st + mm_cnt (s + 1) k N (\<not> p)"
  shows "nodes (snd (minimax_ab_tree s k N p NegInf PosInf st)) < nodes st + mm_cnt s k N p"
proof -
  let ?st = "st\<lparr>nodes := nodes st + 1\<rparr>"
  have s1: "s + 1 \<le> N" using sN by simp
  have cnt: "mm_cnt s k N p = 1 + sum_list (map (child_cnt s k N p) (1 # [2..k]))"
    using mm_cnt_node[OF sN, of k p] by (simp add: upto_one[OF k])
  show ?thesis
  proof (cases p)
    case True
    let ?body = "\<lambda>i a st. if s + i > N then (Fin (- 1), st)
                           else minimax_ab_tree (s + i) k N False a PosInf st"
    have unfold: "minimax_ab_tree s k N True NegInf PosInf st
        = ab_max_loop ?body (1 # [2..k]) NegInf NegInf PosInf ?st"
      using sN by (simp only: minimax_ab_tree.simps[of s] Let_def upto_one[OF k]) simp
    have head: "nodes (snd (?body 1 NegInf ?st)) < nodes ?st + child_cnt s k N True 1"
      using child[of ?st] s1 True by (simp add: child_cnt_def)
    have rest: "nodes (snd (?body j a st')) \<le> nodes st' + child_cnt s k N True j" for j a st'
      using ab_body_count[where s = s and i = j and N = N and v = "Fin (- 1)" and st = st'
          and k = k and p = True and alpha = a and beta = PosInf]
      by (simp split: if_splits)
    have "nodes (snd (ab_max_loop ?body (1 # [2..k]) NegInf NegInf PosInf ?st))
            < nodes ?st + sum_list (map (child_cnt s k N True) (1 # [2..k]))"
      by (rule ab_max_loop_count_head[where body = ?body and c = "child_cnt s k N True",
            OF head rest child_cnt_nonneg])
    then show ?thesis using unfold cnt True by simp
  next
    case False
    let ?body = "\<lambda>i b st. if s + i > N then (Fin 1, st)
                           else minimax_ab_tree (s + i) k N True NegInf b st"
    have unfold: "minimax_ab_tree s k N False NegInf PosInf st
        = ab_min_loop ?body (1 # [2..k]) PosInf NegInf PosInf ?st"
      using sN by (simp only: minimax_ab_tree.simps[of s] Let_def upto_one[OF k]) simp
    have head: "nodes (snd (?body 1 PosInf ?st)) < nodes ?st + child_cnt s k N False 1"
      using child[of ?st] s1 False by (simp add: child_cnt_def)
    have rest: "nodes (snd (?body j b st')) \<le> nodes st' + child_cnt s k N False j" for j b st'
      using ab_body_count[where s = s and i = j and N = N and v = "Fin 1" and st = st'
          and k = k and p = False and alpha = NegInf and beta = b]
      by (simp split: if_splits)
    have "nodes (snd (ab_min_loop ?body (1 # [2..k]) PosInf NegInf PosInf ?st))
            < nodes ?st + sum_list (map (child_cnt s k N False) (1 # [2..k]))"
      by (rule ab_min_loop_count_head[where body = ?body and c = "child_cnt s k N False",
            OF head rest child_cnt_nonneg])
    then show ?thesis using unfold cnt False by simp
  qed
qed

lemma ab_strict:
  assumes k: "2 \<le> k"
  shows "s \<le> N - k - 2 \<Longrightarrow>
    nodes (snd (minimax_ab_tree s k N p NegInf PosInf st)) < nodes st + mm_cnt s k N p"
proof (induction "nat (N - k - 2 - s)" arbitrary: s p st rule: less_induct)
  case less
  show ?case
  proof (cases "s = N - k - 2")
    case True
    then show ?thesis by (rule ab_strict_base[OF k])
  next
    case False
    with less.prems have lt: "s + 1 \<le> N - k - 2" by simp
    then have m: "nat (N - k - 2 - (s + 1)) < nat (N - k - 2 - s)" by simp
    have sN: "s < N" using lt k by simp
    have k1: "1 \<le> k" using k by simp
    show ?thesis
      by (rule ab_strict_descent[OF k1 sN]) (rule less(1)[OF m lt])
  qed
qed

subsection \<open>Agreement of the three methods, and the node counts\<close>

text \<open>
  C2. For every \<open>k \<ge> 1\<close> and \<open>N \<ge> 0\<close> the three computations of the root value agree:
  \<^verbatim>\<open>minimax_tree(0, k, N, True)\<close>, \<^verbatim>\<open>minimax_ab_tree(0, k, N, True, -inf, +inf)\<close> and
  \<^verbatim>\<open>solve_addition_game(k, N)['V'][0]\<close>, whatever the counters passed to the searches.
\<close>

theorem three_methods_agree:
  assumes "1 \<le> k" and "0 \<le> N"
  shows "fst (minimax_tree 0 k N True st1) = fst (minimax_ab_tree 0 k N True NegInf PosInf st2) \<and>
         (\<exists>sol. solve_addition_game k N = Inr sol \<and>
                py_get (V sol) 0 = Inr (fst (minimax_tree 0 k N True st1)))"
proof -
  from solve_closed[OF assms] obtain sol where sol: "solve_addition_game k N = Inr sol"
    "length (V sol) = nat (N + 1)"
    "\<forall>t. 0 \<le> t \<and> t \<le> N \<longrightarrow> V sol ! nat t = expected k N t" by blast
  have mm: "fst (minimax_tree 0 k N True st1) = expected k N 0"
    using mm_val_closed[OF assms(1), of 0 N True] assms(2) by (simp add: minimax_tree_pure)
  have "py_get (V sol) 0 = Inr (V sol ! nat 0)"
    using assms(2) sol(2) by (intro py_get_in_range) auto
  moreover have "V sol ! nat 0 = expected k N 0"
    using sol(3)[rule_format, of 0] assms(2) by simp
  ultimately have "py_get (V sol) 0 = Inr (expected k N 0)" by simp
  with sol(1) mm show ?thesis
    by (simp add: ab_full_window minimax_tree_pure)
qed

theorem three_methods_agree_witness:
  "(1::int) \<le> 3 \<and> (0::int) \<le> 10 \<and>
   fst (minimax_tree 0 3 10 True \<lparr>nodes = 0\<rparr>)
     = fst (minimax_ab_tree 0 3 10 True NegInf PosInf \<lparr>nodes = 0\<rparr>) \<and>
   (\<exists>sol. solve_addition_game 3 10 = Inr sol \<and>
          py_get (V sol) 0 = Inr (fst (minimax_tree 0 3 10 True \<lparr>nodes = 0\<rparr>)))"
proof -
  have h: "(1::int) \<le> 3" "(0::int) \<le> 10" by simp_all
  from three_methods_agree[OF h, of "\<lparr>nodes = 0\<rparr>" "\<lparr>nodes = 0\<rparr>"] h
  show ?thesis by blast
qed

text \<open>
  C4. For every \<open>k \<ge> 1\<close> and \<open>N \<ge> 0\<close>, started at \<open>s = 0\<close> with Player I to move and the
  same counter, \<^verbatim>\<open>minimax_ab_tree\<close> with \<open>alpha = -inf\<close>, \<open>beta = +inf\<close> ends with a node
  counter no larger than that of \<^verbatim>\<open>minimax_tree\<close>; for \<open>k \<ge> 2\<close> and \<open>N \<ge> k + 2\<close> it is
  strictly smaller.
\<close>

theorem pruning_node_counts:
  assumes "1 \<le> k" and "0 \<le> N"
  shows "nodes (snd (minimax_ab_tree 0 k N True NegInf PosInf st))
           \<le> nodes (snd (minimax_tree 0 k N True st)) \<and>
         (2 \<le> k \<and> k + 2 \<le> N \<longrightarrow>
            nodes (snd (minimax_ab_tree 0 k N True NegInf PosInf st))
              < nodes (snd (minimax_tree 0 k N True st)))"
proof -
  have mm: "nodes (snd (minimax_tree 0 k N True st)) = nodes st + mm_cnt 0 k N True"
    by (simp add: minimax_tree_pure)
  have le: "nodes (snd (minimax_ab_tree 0 k N True NegInf PosInf st))
              \<le> nodes st + mm_cnt 0 k N True"
    by (rule ab_count_le)
  have lt: "nodes (snd (minimax_ab_tree 0 k N True NegInf PosInf st))
              < nodes st + mm_cnt 0 k N True" if "2 \<le> k" "k + 2 \<le> N"
    using that by (intro ab_strict) auto
  show ?thesis using mm le lt by simp
qed

theorem pruning_node_counts_witness:
  "(1::int) \<le> 2 \<and> (0::int) \<le> 4 \<and> (2::int) \<le> 2 \<and> (2::int) + 2 \<le> 4 \<and>
   nodes (snd (minimax_ab_tree 0 2 4 True NegInf PosInf \<lparr>nodes = 0\<rparr>))
     \<le> nodes (snd (minimax_tree 0 2 4 True \<lparr>nodes = 0\<rparr>)) \<and>
   nodes (snd (minimax_ab_tree 0 2 4 True NegInf PosInf \<lparr>nodes = 0\<rparr>))
     < nodes (snd (minimax_tree 0 2 4 True \<lparr>nodes = 0\<rparr>))"
  using pruning_node_counts[of 2 4 "\<lparr>nodes = 0\<rparr>"] by simp

lemma pruning_example_counts:
  "nodes (snd (minimax_ab_tree 0 2 4 True NegInf PosInf \<lparr>nodes = 0\<rparr>)) = 11"
  "nodes (snd (minimax_tree 0 2 4 True \<lparr>nodes = 0\<rparr>)) = 12"
  by code_simp+

section \<open>Properties of simulated play\<close>




lemma format_d_int [simp]: "format_d (Some (Fin n)) = Inr ()"
  by (simp add: format_d_def)




subsection \<open>The two games for \<open>k = 3\<close>, \<open>N = 10\<close>\<close>

lemma play_optimal_vs_worst:
  "demo_game_play 3 10 True False = Some (Inr \<lparr>trajectory =
     [\<lparr>mv_num = 1, mv_player = ''I '', mv_sum = 0, mv_pick = 2, mv_new_sum = 2\<rparr>,
      \<lparr>mv_num = 2, mv_player = ''II'', mv_sum = 2, mv_pick = 1, mv_new_sum = 3\<rparr>,
      \<lparr>mv_num = 3, mv_player = ''I '', mv_sum = 3, mv_pick = 3, mv_new_sum = 6\<rparr>,
      \<lparr>mv_num = 4, mv_player = ''II'', mv_sum = 6, mv_pick = 1, mv_new_sum = 7\<rparr>,
      \<lparr>mv_num = 5, mv_player = ''I '', mv_sum = 7, mv_pick = 3, mv_new_sum = 10\<rparr>,
      \<lparr>mv_num = 6, mv_player = ''II'', mv_sum = 10, mv_pick = 1, mv_new_sum = 11\<rparr>],
     loser = ''II'', returned = ''I''\<rparr>)"
  by code_simp

lemma play_optimal_vs_optimal:
  "demo_game_play 3 10 True True = Some (Inr \<lparr>trajectory =
     [\<lparr>mv_num = 1, mv_player = ''I '', mv_sum = 0, mv_pick = 2, mv_new_sum = 2\<rparr>,
      \<lparr>mv_num = 2, mv_player = ''II'', mv_sum = 2, mv_pick = 1, mv_new_sum = 3\<rparr>,
      \<lparr>mv_num = 3, mv_player = ''I '', mv_sum = 3, mv_pick = 3, mv_new_sum = 6\<rparr>,
      \<lparr>mv_num = 4, mv_player = ''II'', mv_sum = 6, mv_pick = 1, mv_new_sum = 7\<rparr>,
      \<lparr>mv_num = 5, mv_player = ''I '', mv_sum = 7, mv_pick = 3, mv_new_sum = 10\<rparr>,
      \<lparr>mv_num = 6, mv_player = ''II'', mv_sum = 10, mv_pick = 1, mv_new_sum = 11\<rparr>],
     loser = ''II'', returned = ''I''\<rparr>)"
  by code_simp

text \<open>
  C9. For \<open>k = 3\<close> and \<open>N = 10\<close>, the game of an optimal Player I against a worst-move
  Player II ends with Player II losing and \<^verbatim>\<open>"I"\<close> returned, in no more moves than the
  game of two optimal players.
\<close>

theorem weak_opponent_game:
  "\<exists>r_worst r_opt.
     demo_game_play 3 10 True False = Some (Inr r_worst) \<and>
     demo_game_play 3 10 True True = Some (Inr r_opt) \<and>
     returned r_worst = ''I'' \<and> loser r_worst = ''II'' \<and>
     length (trajectory r_worst) \<le> length (trajectory r_opt)"
  by (simp add: play_optimal_vs_worst play_optimal_vs_optimal)

end
